theory Spec2Isabelle
  imports Main "HOL-Library.Word" "HOL-Library.Multiset"
begin

section \<open>fbu::ThreadPool, ThreadPoolJobsExecutor and JobCounter\<close>

text \<open>
  The model follows \<^verbatim>\<open>include/fbu/thread_pool.hpp\<close>. A pool is a record of the
  class's members; every thread is a small program counter, and one \<^emph>\<open>event\<close> is one
  atomic action of one thread: a whole critical section where the mutex is taken and
  released inside one statement group, a single statement where the code runs with the
  mutex held across several statements while another thread may touch an atomic
  (\<^verbatim>\<open>mTerminate\<close> is stored by the destructor without the mutex). An execution of the
  program is a list of events (the schedule); \<open>run\<close> folds \<open>step\<close> over it.

  \<^verbatim>\<open>std::atomic_int\<close> is a 32-bit word read as two's complement (\<open>sint\<close>, \<open><s\<close>);
  \<^verbatim>\<open>++\<close> and \<^verbatim>\<open>--\<close> on it wrap around.
\<close>

type_synonym atomic_int = "32 word"

subsection \<open>Jobs, thread states, the pool\<close>

text \<open>
  A job in the queue is a callable. Two shapes occur: the caller's own callable handed to
  \<^verbatim>\<open>ThreadPool::addJob\<close> (\<open>Plain k\<close>, the \<open>k\<close> tells instances apart), and the lambda
  that \<^verbatim>\<open>ThreadPoolJobsExecutor::addJob\<close> builds around the caller's callable
  (\<open>Wrapped e k\<close>, for the executor \<open>e\<close>). The caller's callable is the one of the test
  suite: it increments the shared counter \<^verbatim>\<open>lCounter\<close>.
\<close>

datatype job = Plain nat | Wrapped nat nat

text \<open>
  Where a worker thread stands:
  \<^item> \<open>LoopTest\<close>: at \<^verbatim>\<open>while (!mTerminate)\<close> in \<^verbatim>\<open>threadExecLoop\<close>;
  \<^item> \<open>LockForGrab\<close>: in \<^verbatim>\<open>grabNextJob\<close>, about to take the mutex and test the wait predicate
    (first entry, or after a wake-up);
  \<^item> \<open>CvWait\<close>: predicate found false, mutex held, about to block in \<^verbatim>\<open>wait\<close>;
  \<^item> \<open>Sleeping\<close>: blocked on \<^verbatim>\<open>mJobAvailableCV\<close>, mutex released;
  \<^item> \<open>IncBusy\<close>: predicate found true, mutex held, at \<^verbatim>\<open>++mNumBusyThreads\<close>;
  \<^item> \<open>TestTerminate\<close>: mutex held, at \<^verbatim>\<open>if (!mTerminate)\<close>;
  \<^item> \<open>PopFront\<close>: flag found clear, mutex held, at the assertion and the pop;
  \<^item> \<open>Call j\<close>: at \<^verbatim>\<open>lJob()\<close>; \<open>Some j\<close> is the job popped from the queue, \<open>None\<close> the
    stand-in \<^verbatim>\<open>[]{}\<close>;
  \<^item> \<open>WrapperDec e\<close>: inside an executor's wrapper, after \<^verbatim>\<open>pJob()\<close>, at the block that
    decrements the executor's \<^verbatim>\<open>mNumJobs\<close>;
  \<^item> \<open>DecBusy\<close>: after the job, at the block that decrements \<^verbatim>\<open>mNumBusyThreads\<close>;
  \<^item> \<open>Exited\<close>: \<^verbatim>\<open>threadExecLoop\<close> has returned.
\<close>

datatype wstate =
    LoopTest
  | LockForGrab
  | CvWait
  | Sleeping
  | IncBusy
  | TestTerminate
  | PopFront
  | Call "job option"
  | WrapperDec nat
  | DecBusy
  | Exited

text \<open>Where the destructor stands: not called, after line 101, after line 102, returned.\<close>

datatype dstate = Alive | DtorNotify | DtorJoin | Destroyed

text \<open>
  The members of \<^verbatim>\<open>ThreadPool\<close> keep their names. \<open>mJobsQueueMutex\<close> is the worker
  that holds the mutex, if one does between two events. \<open>mNumJobs e\<close> is the counter of
  the executor \<open>e\<close> built on this pool, \<open>inAddJob\<close> the calls of
  \<^verbatim>\<open>ThreadPoolJobsExecutor::addJob\<close> that have incremented and not yet pushed.
  \<open>lCounter\<close> is the caller's counter. The last three fields are history variables: they
  record what was pushed, popped and finished, and no step reads them.
\<close>

record pool =
  mThreads :: "wstate list"
  mTerminate :: bool
  mNumBusyThreads :: atomic_int
  mJobsQueue :: "job list"
  mJobsQueueMutex :: "nat option"
  dtor :: dstate
  mNumJobs :: "nat \<Rightarrow> atomic_int"
  inAddJob :: "(nat \<times> nat) list"
  lCounter :: nat
  submitted :: "job list"
  dequeued :: "job list"
  finished :: "job list"

text \<open>What one event does: the thread moved, could not move now, or an assertion failed.\<close>

datatype 'a outcome = Next 'a | Blocked | AssertionFailed

subsection \<open>Construction and the accessors\<close>

text \<open>
  Lines 71--92. \<open>pNumThreads\<close> is an \<^verbatim>\<open>int\<close>, the cast to \<^verbatim>\<open>unsigned\<close> keeps the bits;
  \<open>hw\<close> is what \<^verbatim>\<open>std::thread::hardware_concurrency()\<close> returns, at both calls. The
  vector has that many threads, and every thread starts in \<^verbatim>\<open>threadExecLoop\<close>.
\<close>

definition numThreadsFor :: "32 word \<Rightarrow> 32 word \<Rightarrow> 32 word" where
  "numThreadsFor pNumThreads hw =
     (if pNumThreads \<noteq> 0 then pNumThreads else (if hw \<noteq> 0 then hw else 2))"

definition ThreadPool :: "32 word \<Rightarrow> 32 word \<Rightarrow> pool" where
  "ThreadPool pNumThreads hw =
     \<lparr> mThreads = replicate (unat (numThreadsFor pNumThreads hw)) LoopTest,
       mTerminate = False,
       mNumBusyThreads = 0,
       mJobsQueue = [],
       mJobsQueueMutex = None,
       dtor = Alive,
       mNumJobs = (\<lambda>e. 0),
       inAddJob = [],
       lCounter = 0,
       submitted = [],
       dequeued = [],
       finished = [] \<rparr>"

definition getNumThreads :: "pool \<Rightarrow> nat" where
  "getNumThreads s = length (mThreads s)"

definition getNumBusyThreads :: "pool \<Rightarrow> int" where
  "getNumBusyThreads s = sint (mNumBusyThreads s)"

subsection \<open>The worker: threadExecLoop and grabNextJob\<close>

definition setThread :: "pool \<Rightarrow> nat \<Rightarrow> wstate \<Rightarrow> pool" where
  "setThread s i w = s\<lparr>mThreads := (mThreads s)[i := w]\<rparr>"

text \<open>The wait predicate of line 164.\<close>

definition jobAvailable :: "pool \<Rightarrow> bool" where
  "jobAvailable s = (length (mJobsQueue s) > 0 \<or> mTerminate s)"

text \<open>
  The caller's callable of the test suite: \<^verbatim>\<open>++lCounter\<close> (the sleep before it has no
  effect on the state).
\<close>

definition lFunction :: "job \<Rightarrow> pool \<Rightarrow> pool" where
  "lFunction j s = s\<lparr>lCounter := lCounter s + 1, finished := finished s @ [j]\<rparr>"

text \<open>
  \<^verbatim>\<open>grabNextJob\<close>, lines 159--178, for the worker \<open>i\<close> standing at \<open>w\<close>: taking the mutex
  and testing the predicate, blocking in \<^verbatim>\<open>wait\<close>, the increment, the test of the flag,
  then the pop or the stand-in. The test of the flag and the pop are two events: the
  destructor stores the flag without the mutex, so its store can fall between them. The
  mutex is released when the function returns.
\<close>

fun grabNextJob :: "pool \<Rightarrow> nat \<Rightarrow> wstate \<Rightarrow> pool outcome" where
  "grabNextJob s i LockForGrab =
     (if mJobsQueueMutex s \<noteq> None then Blocked
      else Next (setThread (s\<lparr>mJobsQueueMutex := Some i\<rparr>) i
                   (if jobAvailable s then IncBusy else CvWait)))"
| "grabNextJob s i CvWait =
     Next (setThread (s\<lparr>mJobsQueueMutex := None\<rparr>) i Sleeping)"
| "grabNextJob s i IncBusy =
     Next (setThread (s\<lparr>mNumBusyThreads := mNumBusyThreads s + 1\<rparr>) i TestTerminate)"
| "grabNextJob s i TestTerminate =
     (if \<not> mTerminate s then Next (setThread s i PopFront)
      else Next (setThread (s\<lparr>mJobsQueueMutex := None\<rparr>) i (Call None)))"
| "grabNextJob s i PopFront =
     (case mJobsQueue s of
        [] \<Rightarrow> AssertionFailed
      | j # q \<Rightarrow>
          Next (setThread (s\<lparr>mJobsQueue := q, mJobsQueueMutex := None,
                             dequeued := dequeued s @ [j]\<rparr>) i (Call (Some j))))"
| "grabNextJob s i w = Blocked"

text \<open>
  \<^verbatim>\<open>threadExecLoop\<close>, lines 145--157: the loop test, the call of \<^verbatim>\<open>grabNextJob\<close>, the call
  of the job (for a wrapper of an executor: the caller's callable, then the decrement of
  lines 210--214), the decrement of the busy count under the mutex.
\<close>

fun threadExecLoop :: "pool \<Rightarrow> nat \<Rightarrow> wstate \<Rightarrow> pool outcome" where
  "threadExecLoop s i LoopTest =
     Next (setThread s i (if mTerminate s then Exited else LockForGrab))"
| "threadExecLoop s i (Call None) = Next (setThread s i DecBusy)"
| "threadExecLoop s i (Call (Some (Plain k))) =
     Next (setThread (lFunction (Plain k) s) i DecBusy)"
| "threadExecLoop s i (Call (Some (Wrapped e k))) =
     Next (setThread (lFunction (Wrapped e k) s) i (WrapperDec e))"
| "threadExecLoop s i (WrapperDec e) =
     Next (setThread (s\<lparr>mNumJobs := (mNumJobs s)(e := mNumJobs s e - 1)\<rparr>) i DecBusy)"
| "threadExecLoop s i DecBusy =
     (if mJobsQueueMutex s \<noteq> None then Blocked
      else Next (setThread (s\<lparr>mNumBusyThreads := mNumBusyThreads s - 1\<rparr>) i LoopTest))"
| "threadExecLoop s i Exited = Blocked"
| "threadExecLoop s i w = grabNextJob s i w"

subsection \<open>The callers: addJob, waitForCompletion, the destructor\<close>

text \<open>
  \<^verbatim>\<open>notify_one\<close> wakes one thread blocked on the condition variable when there is one;
  which one is the scheduler's choice, given with the event. \<open>None\<close> is possible only
  when no worker sleeps.
\<close>

definition notifyOne :: "pool \<Rightarrow> nat option \<Rightarrow> pool option" where
  "notifyOne s w =
     (case w of
        None \<Rightarrow> (if Sleeping \<in> set (mThreads s) then None else Some s)
      | Some i \<Rightarrow>
          (if i < length (mThreads s) \<and> mThreads s ! i = Sleeping
           then Some (setThread s i LockForGrab) else None))"

definition wake :: "wstate \<Rightarrow> wstate" where
  "wake w = (if w = Sleeping then LockForGrab else w)"

definition notifyAll :: "pool \<Rightarrow> pool" where
  "notifyAll s = s\<lparr>mThreads := map wake (mThreads s)\<rparr>"

text \<open>Lines 113--119: push at the back, under the mutex, and notify one worker.\<close>

definition push :: "pool \<Rightarrow> job \<Rightarrow> pool" where
  "push s j = s\<lparr>mJobsQueue := mJobsQueue s @ [j], submitted := submitted s @ [j]\<rparr>"

definition addJob :: "pool \<Rightarrow> job \<Rightarrow> nat option \<Rightarrow> pool outcome" where
  "addJob s j w =
     (if mJobsQueueMutex s \<noteq> None then Blocked
      else (case notifyOne (push s j) w of
              None \<Rightarrow> Blocked
            | Some s' \<Rightarrow> Next s'))"

text \<open>
  Lines 125--132. The loop condition, and one evaluation of it under the mutex: the
  caller returns when it is false and waits on \<^verbatim>\<open>mCompletionCV\<close> when it is true (it
  evaluates the condition again after any wake-up, which is another event).
\<close>

definition completionPending :: "pool \<Rightarrow> bool" where
  "completionPending s = (length (mJobsQueue s) > 0 \<or> 0 <s mNumBusyThreads s)"

definition waitForCompletion :: "pool \<Rightarrow> pool outcome" where
  "waitForCompletion s =
     (if mJobsQueueMutex s \<noteq> None then Blocked
      else if completionPending s then Blocked
      else Next s)"

text \<open>
  Lines 99--108, one statement per event; the join loop ends when every worker has
  left \<^verbatim>\<open>threadExecLoop\<close>.
\<close>

definition destructorStep :: "pool \<Rightarrow> pool outcome" where
  "destructorStep s =
     (case dtor s of
        Alive \<Rightarrow> Next (s\<lparr>mTerminate := True, dtor := DtorNotify\<rparr>)
      | DtorNotify \<Rightarrow> Next ((notifyAll s)\<lparr>dtor := DtorJoin\<rparr>)
      | DtorJoin \<Rightarrow>
          (if list_all (\<lambda>w. w = Exited) (mThreads s)
           then (if mNumBusyThreads s = 0 then Next (s\<lparr>dtor := Destroyed\<rparr>)
                 else AssertionFailed)
           else Blocked)
      | Destroyed \<Rightarrow> Blocked)"

subsection \<open>ThreadPoolJobsExecutor\<close>

text \<open>
  Lines 202--216. \<^verbatim>\<open>addJob\<close> is two critical sections: the increment under the
  executor's mutex, then the push of the wrapper into the pool.
\<close>

definition execAddJobInc :: "pool \<Rightarrow> nat \<Rightarrow> nat \<Rightarrow> pool outcome" where
  "execAddJobInc s e k =
     Next (s\<lparr>mNumJobs := (mNumJobs s)(e := mNumJobs s e + 1),
             inAddJob := (e, k) # inAddJob s\<rparr>)"

definition execAddJobPush :: "pool \<Rightarrow> nat \<Rightarrow> nat \<Rightarrow> nat option \<Rightarrow> pool outcome" where
  "execAddJobPush s e k w =
     (if (e, k) \<in> set (inAddJob s)
      then addJob (s\<lparr>inAddJob := remove1 (e, k) (inAddJob s)\<rparr>) (Wrapped e k) w
      else Blocked)"

text \<open>Lines 221--225: the wait predicate is \<^verbatim>\<open>mNumJobs == 0\<close>.\<close>

definition execWaitForCompletion :: "pool \<Rightarrow> nat \<Rightarrow> pool outcome" where
  "execWaitForCompletion s e = (if mNumJobs s e = 0 then Next s else Blocked)"

subsection \<open>Events and executions\<close>

datatype event =
    AddJob nat "nat option"
  | WaitForCompletion
  | Worker nat
  | Spurious nat
  | Destructor
  | ExecAddJobInc nat nat
  | ExecAddJobPush nat nat "nat option"
  | ExecWaitForCompletion nat

text \<open>
  A destroyed pool takes no event. A spurious wake-up lets a sleeping worker test its
  predicate again.
\<close>

fun step :: "pool \<Rightarrow> event \<Rightarrow> pool outcome" where
  "step s ev =
     (if dtor s = Destroyed then Blocked
      else (case ev of
          AddJob k w \<Rightarrow> addJob s (Plain k) w
        | WaitForCompletion \<Rightarrow> waitForCompletion s
        | Worker i \<Rightarrow>
            (if i < length (mThreads s) then threadExecLoop s i (mThreads s ! i) else Blocked)
        | Spurious i \<Rightarrow>
            (if i < length (mThreads s) \<and> mThreads s ! i = Sleeping
             then Next (setThread s i LockForGrab) else Blocked)
        | Destructor \<Rightarrow> destructorStep s
        | ExecAddJobInc e k \<Rightarrow> execAddJobInc s e k
        | ExecAddJobPush e k w \<Rightarrow> execAddJobPush s e k w
        | ExecWaitForCompletion e \<Rightarrow> execWaitForCompletion s e))"

fun run :: "pool \<Rightarrow> event list \<Rightarrow> pool outcome" where
  "run s [] = Next s"
| "run s (ev # evs) =
     (case step s ev of Next s' \<Rightarrow> run s' evs | Blocked \<Rightarrow> Blocked
      | AssertionFailed \<Rightarrow> AssertionFailed)"


subsection \<open>The legacy copy of the pool\<close>

text \<open>
  \<^verbatim>\<open>cpp/thread_pool.hpp\<close> is an older copy of the class, with the same members. Three
  places differ in what they do to the state: the loop condition of
  \<^verbatim>\<open>waitForCompletion\<close> (lines 102--109) joins its two tests with \<^verbatim>\<open>&&\<close>; the worker
  decrements \<^verbatim>\<open>mNumBusyThreads\<close> without taking the mutex (line 118); the destructor
  has no assertion. It has no executor. Where \<^verbatim>\<open>grabNextJob\<close> of the newer file asserts a
  non-empty queue, this one calls \<^verbatim>\<open>front()\<close> on it, which is undefined on an empty list;
  both are the same outcome here.
\<close>

text \<open>
  Its constructor (lines 59--71) initialises \<^verbatim>\<open>mTerminate\<close> and leaves
  \<^verbatim>\<open>mNumBusyThreads\<close> as it is declared, without a value: \<open>junk\<close> is what the counter
  holds when the object is built.
\<close>

definition legacy_ThreadPool :: "32 word \<Rightarrow> 32 word \<Rightarrow> atomic_int \<Rightarrow> pool" where
  "legacy_ThreadPool pNumThreads hw junk =
     (ThreadPool pNumThreads hw)\<lparr>mNumBusyThreads := junk\<rparr>"

definition legacy_completionPending :: "pool \<Rightarrow> bool" where
  "legacy_completionPending s = (length (mJobsQueue s) > 0 \<and> 0 <s mNumBusyThreads s)"

definition legacy_waitForCompletion :: "pool \<Rightarrow> pool outcome" where
  "legacy_waitForCompletion s =
     (if mJobsQueueMutex s \<noteq> None then Blocked
      else if legacy_completionPending s then Blocked
      else Next s)"

definition legacy_threadExecLoop :: "pool \<Rightarrow> nat \<Rightarrow> wstate \<Rightarrow> pool outcome" where
  "legacy_threadExecLoop s i w =
     (if w = DecBusy
      then Next (setThread (s\<lparr>mNumBusyThreads := mNumBusyThreads s - 1\<rparr>) i LoopTest)
      else threadExecLoop s i w)"

definition legacy_destructorStep :: "pool \<Rightarrow> pool outcome" where
  "legacy_destructorStep s =
     (case dtor s of
        Alive \<Rightarrow> Next (s\<lparr>mTerminate := True, dtor := DtorNotify\<rparr>)
      | DtorNotify \<Rightarrow> Next ((notifyAll s)\<lparr>dtor := DtorJoin\<rparr>)
      | DtorJoin \<Rightarrow>
          (if list_all (\<lambda>w. w = Exited) (mThreads s)
           then Next (s\<lparr>dtor := Destroyed\<rparr>) else Blocked)
      | Destroyed \<Rightarrow> Blocked)"

fun legacy_step :: "pool \<Rightarrow> event \<Rightarrow> pool outcome" where
  "legacy_step s ev =
     (if dtor s = Destroyed then Blocked
      else (case ev of
          AddJob k w \<Rightarrow> addJob s (Plain k) w
        | WaitForCompletion \<Rightarrow> legacy_waitForCompletion s
        | Worker i \<Rightarrow>
            (if i < length (mThreads s) then legacy_threadExecLoop s i (mThreads s ! i)
             else Blocked)
        | Spurious i \<Rightarrow>
            (if i < length (mThreads s) \<and> mThreads s ! i = Sleeping
             then Next (setThread s i LockForGrab) else Blocked)
        | Destructor \<Rightarrow> legacy_destructorStep s
        | ExecAddJobInc e k \<Rightarrow> Blocked
        | ExecAddJobPush e k w \<Rightarrow> Blocked
        | ExecWaitForCompletion e \<Rightarrow> Blocked))"

fun legacy_run :: "pool \<Rightarrow> event list \<Rightarrow> pool outcome" where
  "legacy_run s [] = Next s"
| "legacy_run s (ev # evs) =
     (case legacy_step s ev of Next s' \<Rightarrow> legacy_run s' evs | Blocked \<Rightarrow> Blocked
      | AssertionFailed \<Rightarrow> AssertionFailed)"

subsection \<open>JobCounter\<close>

text \<open>
  Lines 242--271. The object is its \<^verbatim>\<open>mNumJobs\<close>; each method is one critical section
  under the counter's own mutex, so calls from any number of threads happen one after
  the other, in some order: an execution is the list of calls in that order.
\<close>

definition JobCounter :: atomic_int where
  "JobCounter = 0"

definition increment :: "atomic_int \<Rightarrow> atomic_int outcome" where
  "increment c = Next (c + 1)"

definition decrement :: "atomic_int \<Rightarrow> atomic_int outcome" where
  "decrement c = (if 0 <s c then Next (c - 1) else AssertionFailed)"

definition counterWaitForCompletion :: "atomic_int \<Rightarrow> atomic_int outcome" where
  "counterWaitForCompletion c = (if c = 0 then Next c else Blocked)"

datatype call = Increment | Decrement

fun counterRun :: "atomic_int \<Rightarrow> call list \<Rightarrow> atomic_int outcome" where
  "counterRun c [] = Next c"
| "counterRun c (Increment # ops) =
     (case increment c of Next c' \<Rightarrow> counterRun c' ops | Blocked \<Rightarrow> Blocked
      | AssertionFailed \<Rightarrow> AssertionFailed)"
| "counterRun c (Decrement # ops) =
     (case decrement c of Next c' \<Rightarrow> counterRun c' ops | Blocked \<Rightarrow> Blocked
      | AssertionFailed \<Rightarrow> AssertionFailed)"

text \<open>
  The discipline of the callers. \<open>paired n ops\<close>: with \<open>n\<close> increments not yet matched,
  every \<open>Decrement\<close> of \<open>ops\<close> comes when more increments than decrements have been
  made. \<open>peak n ops\<close> is the largest number of unmatched increments on the way.
\<close>

fun paired :: "nat \<Rightarrow> call list \<Rightarrow> bool" where
  "paired n [] = True"
| "paired n (Increment # ops) = paired (Suc n) ops"
| "paired n (Decrement # ops) = (0 < n \<and> paired (n - 1) ops)"

fun peak :: "nat \<Rightarrow> call list \<Rightarrow> nat" where
  "peak n [] = n"
| "peak n (Increment # ops) = max n (peak (Suc n) ops)"
| "peak n (Decrement # ops) = max n (peak (n - 1) ops)"

subsection \<open>What the proofs count\<close>

text \<open>
  A worker is busy between its \<^verbatim>\<open>++mNumBusyThreads\<close> and its
  \<^verbatim>\<open>--mNumBusyThreads\<close>; it holds the mutex between the events of \<^verbatim>\<open>grabNextJob\<close>.
\<close>

fun isBusy :: "wstate \<Rightarrow> bool" where
  "isBusy TestTerminate = True"
| "isBusy PopFront = True"
| "isBusy (Call j) = True"
| "isBusy (WrapperDec e) = True"
| "isBusy DecBusy = True"
| "isBusy w = False"

fun holdsMutex :: "wstate \<Rightarrow> bool" where
  "holdsMutex CvWait = True"
| "holdsMutex IncBusy = True"
| "holdsMutex TestTerminate = True"
| "holdsMutex PopFront = True"
| "holdsMutex w = False"

definition numBusy :: "wstate list \<Rightarrow> nat" where
  "numBusy ws = length (filter isBusy ws)"

text \<open>The jobs that workers have popped and are still calling.\<close>

fun called :: "wstate \<Rightarrow> job list" where
  "called (Call (Some j)) = [j]"
| "called w = []"

definition inCall :: "wstate list \<Rightarrow> job list" where
  "inCall ws = concat (map called ws)"

text \<open>
  The jobs of the executor \<open>e\<close> that are not finished: counted in \<^verbatim>\<open>addJob\<close> and not yet
  pushed, in the queue, or on a worker that has not yet decremented for it.
\<close>

fun isWrapped :: "nat \<Rightarrow> job \<Rightarrow> bool" where
  "isWrapped e (Wrapped e' k) = (e' = e)"
| "isWrapped e (Plain k) = False"

fun worksFor :: "nat \<Rightarrow> wstate \<Rightarrow> bool" where
  "worksFor e (Call (Some j)) = isWrapped e j"
| "worksFor e (WrapperDec e') = (e' = e)"
| "worksFor e w = False"

definition execOutstanding :: "nat \<Rightarrow> pool \<Rightarrow> nat" where
  "execOutstanding e s =
     length (filter (\<lambda>p. fst p = e) (inAddJob s))
     + length (filter (isWrapped e) (mJobsQueue s))
     + length (filter (worksFor e) (mThreads s))"

text \<open>The jobs that a schedule pushes, in the order of the schedule.\<close>

fun pushes :: "event list \<Rightarrow> job list" where
  "pushes [] = []"
| "pushes (AddJob k w # evs) = Plain k # pushes evs"
| "pushes (ExecAddJobPush e k w # evs) = Wrapped e k # pushes evs"
| "pushes (ev # evs) = pushes evs"

text \<open>The invariants of an execution that starts at a constructed pool.\<close>

definition inv_busy :: "pool \<Rightarrow> bool" where
  "inv_busy s = (mNumBusyThreads s = of_nat (numBusy (mThreads s)))"

definition inv_mutex :: "pool \<Rightarrow> bool" where
  "inv_mutex s =
     ((\<forall>i. mJobsQueueMutex s = Some i \<longrightarrow> i < length (mThreads s) \<and> holdsMutex (mThreads s ! i))
      \<and> (\<forall>i < length (mThreads s). holdsMutex (mThreads s ! i) \<longrightarrow> mJobsQueueMutex s = Some i))"

definition inv_avail :: "pool \<Rightarrow> bool" where
  "inv_avail s =
     (\<forall>i < length (mThreads s).
        (mThreads s ! i = IncBusy \<or> mThreads s ! i = TestTerminate \<longrightarrow> jobAvailable s)
        \<and> (mThreads s ! i = PopFront \<longrightarrow> mJobsQueue s \<noteq> []))"

definition inv_fifo :: "pool \<Rightarrow> bool" where
  "inv_fifo s = (submitted s = dequeued s @ mJobsQueue s)"

definition inv_count :: "pool \<Rightarrow> bool" where
  "inv_count s =
     (mset (dequeued s) = mset (finished s) + mset (inCall (mThreads s))
      \<and> lCounter s = length (finished s))"

definition inv_term :: "pool \<Rightarrow> bool" where
  "inv_term s = (mTerminate s \<longleftrightarrow> dtor s \<noteq> Alive)"

definition inv_exec :: "pool \<Rightarrow> bool" where
  "inv_exec s = (\<forall>e. mNumJobs s e = of_nat (execOutstanding e s))"

subsection \<open>Example executions\<close>

text \<open>
  Two workers, two jobs pushed before any worker runs; both workers take one job each,
  the second worker finishes first. \<open>two_jobs_taken\<close> is the schedule up to the point
  where both jobs are being called, \<open>two_jobs\<close> the whole schedule.
\<close>

definition two_jobs_taken :: "event list" where
  "two_jobs_taken =
     [AddJob 0 None, AddJob 1 None,
      Worker 0, Worker 0, Worker 0, Worker 0, Worker 0,
      Worker 1, Worker 1, Worker 1, Worker 1, Worker 1]"

definition two_jobs :: "event list" where
  "two_jobs = two_jobs_taken @ [Worker 1, Worker 1, Worker 0, Worker 0]"

definition two_jobs_running :: pool where
  "two_jobs_running =
     \<lparr> mThreads = [Call (Some (Plain 0)), Call (Some (Plain 1))],
       mTerminate = False,
       mNumBusyThreads = 2,
       mJobsQueue = [],
       mJobsQueueMutex = None,
       dtor = Alive,
       mNumJobs = (\<lambda>e. 0),
       inAddJob = [],
       lCounter = 0,
       submitted = [Plain 0, Plain 1],
       dequeued = [Plain 0, Plain 1],
       finished = [] \<rparr>"

definition two_jobs_done :: pool where
  "two_jobs_done =
     \<lparr> mThreads = [LoopTest, LoopTest],
       mTerminate = False,
       mNumBusyThreads = 0,
       mJobsQueue = [],
       mJobsQueueMutex = None,
       dtor = Alive,
       mNumJobs = (\<lambda>e. 0),
       inAddJob = [],
       lCounter = 2,
       submitted = [Plain 0, Plain 1],
       dequeued = [Plain 0, Plain 1],
       finished = [Plain 1, Plain 0] \<rparr>"

text \<open>
  One worker, one job: the schedule up to the point where the job has been popped and is
  being called.
\<close>

definition one_job_taken :: "event list" where
  "one_job_taken = [AddJob 0 None, Worker 0, Worker 0, Worker 0, Worker 0, Worker 0]"

definition one_job_running :: pool where
  "one_job_running =
     \<lparr> mThreads = [Call (Some (Plain 0))],
       mTerminate = False,
       mNumBusyThreads = 1,
       mJobsQueue = [],
       mJobsQueueMutex = None,
       dtor = Alive,
       mNumJobs = (\<lambda>e. 0),
       inAddJob = [],
       lCounter = 0,
       submitted = [Plain 0],
       dequeued = [Plain 0],
       finished = [] \<rparr>"

text \<open>The state of that execution just before the pop: the worker holds the mutex.\<close>

definition one_job_locked :: pool where
  "one_job_locked =
     \<lparr> mThreads = [PopFront],
       mTerminate = False,
       mNumBusyThreads = 1,
       mJobsQueue = [Plain 0],
       mJobsQueueMutex = Some 0,
       dtor = Alive,
       mNumJobs = (\<lambda>e. 0),
       inAddJob = [],
       lCounter = 0,
       submitted = [Plain 0],
       dequeued = [],
       finished = [] \<rparr>"

text \<open>
  One worker, one job pushed, and the pool destroyed without a drain: the job is queued
  (\<open>job_queued\<close>), the destructor sets the flag (\<open>terminating\<close>), notifies, the worker
  leaves its loop, the destructor joins (\<open>abandoned\<close>).
\<close>

definition job_queued :: pool where
  "job_queued =
     \<lparr> mThreads = [LoopTest],
       mTerminate = False,
       mNumBusyThreads = 0,
       mJobsQueue = [Plain 0],
       mJobsQueueMutex = None,
       dtor = Alive,
       mNumJobs = (\<lambda>e. 0),
       inAddJob = [],
       lCounter = 0,
       submitted = [Plain 0],
       dequeued = [],
       finished = [] \<rparr>"

definition terminating :: pool where
  "terminating = job_queued\<lparr>mTerminate := True, dtor := DtorNotify\<rparr>"

definition abandoned :: pool where
  "abandoned =
     \<lparr> mThreads = [Exited],
       mTerminate = True,
       mNumBusyThreads = 0,
       mJobsQueue = [Plain 0],
       mJobsQueueMutex = None,
       dtor = Destroyed,
       mNumJobs = (\<lambda>e. 0),
       inAddJob = [],
       lCounter = 0,
       submitted = [Plain 0],
       dequeued = [],
       finished = [] \<rparr>"

text \<open>
  One worker, no job, and the pool destroyed at once. The worker enters its loop, takes
  the mutex in \<^verbatim>\<open>grabNextJob\<close> and finds the predicate of the wait false (line 164);
  before it blocks, the destructor stores the flag and notifies (lines 101--102, neither
  under the mutex); then the worker blocks (\<open>missed_notification\<close>). In the state
  reached (\<open>join_hangs\<close>) the destructor is at \<^verbatim>\<open>join\<close> (line 105) and the worker sleeps
  on the condition variable with the flag set.
\<close>

definition missed_notification :: "event list" where
  "missed_notification = [Worker 0, Worker 0, Destructor, Destructor, Worker 0]"

definition join_hangs :: pool where
  "join_hangs =
     \<lparr> mThreads = [Sleeping],
       mTerminate = True,
       mNumBusyThreads = 0,
       mJobsQueue = [],
       mJobsQueueMutex = None,
       dtor = DtorJoin,
       mNumJobs = (\<lambda>e. 0),
       inAddJob = [],
       lCounter = 0,
       submitted = [],
       dequeued = [],
       finished = [] \<rparr>"

text \<open>
  One worker and one job; the worker tests the flag in \<^verbatim>\<open>grabNextJob\<close> (line 167) and
  finds it clear, the destructor stores the flag (line 101), the worker pops the job
  (line 171) and calls it (\<open>flag_after_test\<close>, reaching \<open>late_job_done\<close>).
\<close>

definition flag_after_test :: "event list" where
  "flag_after_test =
     [AddJob 0 None, Worker 0, Worker 0, Worker 0, Worker 0, Destructor, Worker 0, Worker 0]"

definition late_job_done :: pool where
  "late_job_done =
     \<lparr> mThreads = [DecBusy],
       mTerminate = True,
       mNumBusyThreads = 1,
       mJobsQueue = [],
       mJobsQueueMutex = None,
       dtor = DtorNotify,
       mNumJobs = (\<lambda>e. 0),
       inAddJob = [],
       lCounter = 1,
       submitted = [Plain 0],
       dequeued = [Plain 0],
       finished = [Plain 0] \<rparr>"

text \<open>
  One worker that has entered \<^verbatim>\<open>grabNextJob\<close> when the destructor sets the flag
  (\<open>shutdown_waiter\<close>, reached by \<open>wait_at_shutdown\<close>), and the same worker three events
  later, about to call the stand-in (\<open>shutdown_noop\<close>).
\<close>

definition wait_at_shutdown :: "event list" where
  "wait_at_shutdown = [AddJob 0 None, Worker 0, Destructor]"

definition shutdown_waiter :: pool where
  "shutdown_waiter =
     \<lparr> mThreads = [LockForGrab],
       mTerminate = True,
       mNumBusyThreads = 0,
       mJobsQueue = [Plain 0],
       mJobsQueueMutex = None,
       dtor = DtorNotify,
       mNumJobs = (\<lambda>e. 0),
       inAddJob = [],
       lCounter = 0,
       submitted = [Plain 0],
       dequeued = [],
       finished = [] \<rparr>"

definition shutdown_noop :: pool where
  "shutdown_noop = shutdown_waiter\<lparr>mThreads := [Call None], mNumBusyThreads := 1\<rparr>"

text \<open>
  Two executors, 0 and 1, on a pool of one worker; each submits one job. The worker runs
  the job of executor 0 through its wrapper's decrement; the job of executor 1 is still
  in the queue.
\<close>

definition two_executors :: "event list" where
  "two_executors =
     [ExecAddJobInc 0 0, ExecAddJobPush 0 0 None, ExecAddJobInc 1 0, ExecAddJobPush 1 0 None,
      Worker 0, Worker 0, Worker 0, Worker 0, Worker 0, Worker 0, Worker 0]"

definition first_executor_done :: pool where
  "first_executor_done =
     \<lparr> mThreads = [DecBusy],
       mTerminate = False,
       mNumBusyThreads = 1,
       mJobsQueue = [Wrapped 1 0],
       mJobsQueueMutex = None,
       dtor = Alive,
       mNumJobs = (\<lambda>e. if e = 1 then 1 else 0),
       inAddJob = [],
       lCounter = 1,
       submitted = [Wrapped 0 0, Wrapped 1 0],
       dequeued = [Wrapped 0 0],
       finished = [Wrapped 0 0] \<rparr>"

text \<open>Six calls on a job counter, from any threads, in the order they take its mutex.\<close>

definition six_calls :: "call list" where
  "six_calls = [Increment, Increment, Decrement, Increment, Decrement, Decrement]"

section \<open>Invariants of an execution\<close>

subsection \<open>Counting workers\<close>

text \<open>
  A worker's action replaces one entry of \<open>mThreads\<close>: the number of entries with a
  property changes by what the old and the new entry contribute.
\<close>

lemma length_filter_update:
  "i < length xs \<Longrightarrow>
   length (filter P (xs[i := v])) + (if P (xs ! i) then 1 else 0) =
   length (filter P xs) + (if P v then 1 else 0)"
proof (induction xs arbitrary: i)
  case Nil
  then show ?case by simp
next
  case (Cons x xs)
  show ?case
  proof (cases i)
    case 0
    then show ?thesis by simp
  next
    case (Suc k)
    with Cons.prems have "k < length xs" by simp
    from Cons.IH [OF this] Suc show ?thesis by simp
  qed
qed

lemma numBusy_update:
  "i < length ws \<Longrightarrow>
   numBusy (ws[i := v]) + (if isBusy (ws ! i) then 1 else 0) =
   numBusy ws + (if isBusy v then 1 else 0)"
  unfolding numBusy_def by (rule length_filter_update)


lemma numBusy_update_ring:
  assumes "i < length ws"
  shows "(of_nat (numBusy (ws[i := v])) :: 'a::ring_1) =
         of_nat (numBusy ws) - (if isBusy (ws ! i) then 1 else 0) + (if isBusy v then 1 else 0)"
proof -
  have "(of_nat (numBusy (ws[i := v]) + (if isBusy (ws ! i) then 1 else 0)) :: 'a) =
        of_nat (numBusy ws + (if isBusy v then 1 else 0))"
    using numBusy_update [OF assms, of v] by simp
  then show ?thesis
    by (simp add: algebra_simps split: if_splits)
qed

lemma numBusy_wake: "numBusy (map wake ws) = numBusy ws"
  unfolding numBusy_def by (induction ws) (auto simp: wake_def)

subsection \<open>The shape of an invariant proof\<close>

lemma addJob_cases:
  assumes "addJob s j w = Next s'"
  obtains (quiet) "mJobsQueueMutex s = None" "Sleeping \<notin> set (mThreads s)" "s' = push s j"
  | (woken) i where "mJobsQueueMutex s = None" "i < length (mThreads s)"
      "mThreads s ! i = Sleeping" "s' = setThread (push s j) i LockForGrab"
  using assms
  by (auto simp: addJob_def notifyOne_def push_def split: if_splits option.splits)


text \<open>
  An invariant of every execution: a property that holds after a push, after a wake-up,
  after a worker's action, after a statement of the destructor and after the two halves
  of the executor's \<open>addJob\<close> holds after every event.
\<close>

lemma step_invariant:
  assumes P: "P s" and st: "step s ev = Next s'"
    and pushP: "\<And>s k. P s \<Longrightarrow> mJobsQueueMutex s = None \<Longrightarrow> P (push s (Plain k))"
    and wakeP: "\<And>s i. P s \<Longrightarrow> i < length (mThreads s) \<Longrightarrow> mThreads s ! i = Sleeping
                 \<Longrightarrow> P (setThread s i LockForGrab)"
    and workP: "\<And>s i s'. P s \<Longrightarrow> i < length (mThreads s)
                 \<Longrightarrow> threadExecLoop s i (mThreads s ! i) = Next s' \<Longrightarrow> P s'"
    and dtorP: "\<And>s s'. P s \<Longrightarrow> destructorStep s = Next s' \<Longrightarrow> P s'"
    and incP: "\<And>s e k. P s \<Longrightarrow>
                 P (s\<lparr>mNumJobs := (mNumJobs s)(e := mNumJobs s e + 1),
                       inAddJob := (e, k) # inAddJob s\<rparr>)"
    and wpushP: "\<And>s e k. P s \<Longrightarrow> mJobsQueueMutex s = None \<Longrightarrow> (e, k) \<in> set (inAddJob s)
                 \<Longrightarrow> P (push (s\<lparr>inAddJob := remove1 (e, k) (inAddJob s)\<rparr>) (Wrapped e k))"
  shows "P s'"
proof (cases ev)
  case (AddJob k w)
  with st have "addJob s (Plain k) w = Next s'" by (simp split: if_splits)
  then show ?thesis
  proof (cases rule: addJob_cases)
    case quiet
    with P pushP show ?thesis by simp
  next
    case (woken i)
    from P woken(1) have "P (push s (Plain k))" by (rule pushP)
    moreover from woken have "i < length (mThreads (push s (Plain k)))"
      "mThreads (push s (Plain k)) ! i = Sleeping" by (simp_all add: push_def)
    ultimately show ?thesis unfolding woken(4) by (rule wakeP)
  qed
next
  case WaitForCompletion
  with st have "s' = s" by (simp add: waitForCompletion_def split: if_splits)
  with P show ?thesis by simp
next
  case (Worker i)
  with st have "i < length (mThreads s)" "threadExecLoop s i (mThreads s ! i) = Next s'"
    by (simp_all split: if_splits)
  with P show ?thesis by (rule workP)
next
  case (Spurious i)
  with st have "i < length (mThreads s)" "mThreads s ! i = Sleeping"
    "s' = setThread s i LockForGrab"
    by (simp_all split: if_splits)
  with P wakeP [of s i] show ?thesis by simp
next
  case Destructor
  with st have "destructorStep s = Next s'" by (simp split: if_splits)
  with P show ?thesis by (rule dtorP)
next
  case (ExecAddJobInc e k)
  with st have "s' = s\<lparr>mNumJobs := (mNumJobs s)(e := mNumJobs s e + 1),
                       inAddJob := (e, k) # inAddJob s\<rparr>"
    by (simp add: execAddJobInc_def split: if_splits)
  with P incP [of s e k] show ?thesis by simp
next
  case (ExecAddJobPush e k w)
  let ?t = "s\<lparr>inAddJob := remove1 (e, k) (inAddJob s)\<rparr>"
  from st ExecAddJobPush have mem: "(e, k) \<in> set (inAddJob s)"
    and add: "addJob ?t (Wrapped e k) w = Next s'"
    by (simp_all add: execAddJobPush_def split: if_splits)
  from add show ?thesis
  proof (cases rule: addJob_cases)
    case quiet
    with P mem wpushP [of s e k] show ?thesis by simp
  next
    case (woken i)
    from woken(1) have "mJobsQueueMutex s = None" by simp
    with P mem have "P (push ?t (Wrapped e k))" using wpushP [of s e k] by simp
    moreover from woken have "i < length (mThreads (push ?t (Wrapped e k)))"
      "mThreads (push ?t (Wrapped e k)) ! i = Sleeping" by (simp_all add: push_def)
    ultimately show ?thesis unfolding woken(4) by (rule wakeP)
  qed
next
  case (ExecWaitForCompletion e)
  with st have "s' = s" by (simp add: execWaitForCompletion_def split: if_splits)
  with P show ?thesis by simp
qed

lemma run_invariant:
  assumes "P s" and "run s evs = Next s'"
    and "\<And>s ev s'. P s \<Longrightarrow> step s ev = Next s' \<Longrightarrow> P s'"
  shows "P s'"
  using assms(1,2)
proof (induction evs arbitrary: s)
  case Nil
  then show ?case by simp
next
  case (Cons ev evs)
  show ?case
  proof (cases "step s ev")
    case (Next t)
    with Cons.prems(1) have "P t" using assms(3) [of s ev t] by simp
    moreover from Cons.prems(2) Next have "run t evs = Next s'" by (simp del: step.simps)
    ultimately show ?thesis by (rule Cons.IH)
  qed (use Cons.prems(2) in \<open>simp_all del: step.simps\<close>)
qed

subsection \<open>The busy count\<close>

text \<open>
  \<open>inv_busy\<close>: \<^verbatim>\<open>mNumBusyThreads\<close> is the number of busy workers, as a 32-bit value.
\<close>

lemma threadExecLoop_busy:
  assumes "inv_busy s" "i < length (mThreads s)" "threadExecLoop s i (mThreads s ! i) = Next s'"
  shows "inv_busy s'"
proof (cases "mThreads s ! i")
  case (Call j)
  show ?thesis
  proof (cases j)
    case None
    with Call assms show ?thesis
      by (auto simp: inv_busy_def setThread_def numBusy_update_ring)
  next
    case (Some a)
    with Call assms show ?thesis
      by (cases a) (auto simp: inv_busy_def setThread_def lFunction_def numBusy_update_ring)
  qed
qed (use assms in \<open>auto simp: inv_busy_def setThread_def numBusy_update_ring
       split: if_splits list.splits\<close>)

lemma destructorStep_busy: "inv_busy s \<Longrightarrow> destructorStep s = Next s' \<Longrightarrow> inv_busy s'"
  by (cases "dtor s")
     (auto simp: destructorStep_def inv_busy_def notifyAll_def numBusy_wake split: if_splits)

lemma wake_busy:
  "inv_busy s \<Longrightarrow> i < length (mThreads s) \<Longrightarrow> mThreads s ! i = Sleeping
   \<Longrightarrow> inv_busy (setThread s i LockForGrab)"
  by (simp add: inv_busy_def setThread_def numBusy_update_ring)

lemma step_busy:
  assumes "inv_busy s" "step s ev = Next s'"
  shows "inv_busy s'"
proof (rule step_invariant [where P = inv_busy, OF assms])
  show "\<And>s k. inv_busy s \<Longrightarrow> inv_busy (push s (Plain k))"
    by (simp add: inv_busy_def push_def)
  show "\<And>s e k. inv_busy s \<Longrightarrow>
          inv_busy (s\<lparr>mNumJobs := (mNumJobs s)(e := mNumJobs s e + 1),
                       inAddJob := (e, k) # inAddJob s\<rparr>)"
    by (simp add: inv_busy_def)
  show "\<And>s e k. inv_busy s \<Longrightarrow>
          inv_busy (push (s\<lparr>inAddJob := remove1 (e, k) (inAddJob s)\<rparr>) (Wrapped e k))"
    by (simp add: inv_busy_def push_def)
qed (fact wake_busy threadExecLoop_busy destructorStep_busy)+

lemma ThreadPool_busy: "inv_busy (ThreadPool n hw)"
  by (simp add: inv_busy_def ThreadPool_def numBusy_def)

subsection \<open>The mutex\<close>

text \<open>
  \<open>inv_mutex\<close>: the mutex is held between events exactly by the worker that stands
  inside \<^verbatim>\<open>grabNextJob\<close> with it.
\<close>



lemma inv_mutexD1:
  "inv_mutex s \<Longrightarrow> mJobsQueueMutex s = Some j \<Longrightarrow> j < length (mThreads s) \<and> holdsMutex (mThreads s ! j)"
  unfolding inv_mutex_def by blast

lemma inv_mutexD2:
  "inv_mutex s \<Longrightarrow> j < length (mThreads s) \<Longrightarrow> holdsMutex (mThreads s ! j) \<Longrightarrow> mJobsQueueMutex s = Some j"
  unfolding inv_mutex_def by blast

lemma inv_mutexI:
  assumes "\<And>j. mJobsQueueMutex s = Some j \<Longrightarrow> j < length (mThreads s) \<and> holdsMutex (mThreads s ! j)"
    and "\<And>j. j < length (mThreads s) \<Longrightarrow> holdsMutex (mThreads s ! j) \<Longrightarrow> mJobsQueueMutex s = Some j"
  shows "inv_mutex s"
  unfolding inv_mutex_def using assms by blast

lemma inv_mutex_same:
  assumes inv: "inv_mutex s" and i: "i < length (mThreads s)"
    and w: "holdsMutex w = holdsMutex (mThreads s ! i)"
    and ws: "mThreads s' = (mThreads s)[i := w]" and m: "mJobsQueueMutex s' = mJobsQueueMutex s"
  shows "inv_mutex s'"
proof (rule inv_mutexI)
  fix j assume "mJobsQueueMutex s' = Some j"
  with m have "mJobsQueueMutex s = Some j" by simp
  from inv_mutexD1 [OF inv this] have "j < length (mThreads s)" "holdsMutex (mThreads s ! j)"
    by simp_all
  with w i show "j < length (mThreads s') \<and> holdsMutex (mThreads s' ! j)"
    unfolding ws by (cases "j = i") simp_all
next
  fix j assume j: "j < length (mThreads s')" "holdsMutex (mThreads s' ! j)"
  then have "j < length (mThreads s)" "holdsMutex (mThreads s ! j)"
    unfolding ws using w i by (cases "j = i"; simp)+
  from inv_mutexD2 [OF inv this] m show "mJobsQueueMutex s' = Some j" by simp
qed

lemma inv_mutex_acquire:
  assumes inv: "inv_mutex s" and i: "i < length (mThreads s)"
    and free: "mJobsQueueMutex s = None" and w: "holdsMutex w"
    and ws: "mThreads s' = (mThreads s)[i := w]" and m: "mJobsQueueMutex s' = Some i"
  shows "inv_mutex s'"
proof (rule inv_mutexI)
  fix j assume "mJobsQueueMutex s' = Some j"
  with m have "j = i" by simp
  with w i show "j < length (mThreads s') \<and> holdsMutex (mThreads s' ! j)"
    unfolding ws by simp
next
  fix j assume j: "j < length (mThreads s')" "holdsMutex (mThreads s' ! j)"
  show "mJobsQueueMutex s' = Some j"
  proof (cases "j = i")
    case True
    with m show ?thesis by simp
  next
    case False
    with j have "j < length (mThreads s)" "holdsMutex (mThreads s ! j)"
      unfolding ws by simp_all
    from inv_mutexD2 [OF inv this] free show ?thesis by simp
  qed
qed

lemma inv_mutex_release:
  assumes inv: "inv_mutex s" and i: "i < length (mThreads s)"
    and h: "holdsMutex (mThreads s ! i)" and w: "\<not> holdsMutex w"
    and ws: "mThreads s' = (mThreads s)[i := w]" and m: "mJobsQueueMutex s' = None"
  shows "inv_mutex s'"
proof (rule inv_mutexI)
  fix j assume "mJobsQueueMutex s' = Some j"
  with m show "j < length (mThreads s') \<and> holdsMutex (mThreads s' ! j)" by simp
next
  fix j assume j: "j < length (mThreads s')" "holdsMutex (mThreads s' ! j)"
  from inv_mutexD2 [OF inv i h] have own: "mJobsQueueMutex s = Some i" .
  from j w i have "j \<noteq> i" unfolding ws by auto
  with j have "j < length (mThreads s)" "holdsMutex (mThreads s ! j)"
    unfolding ws by simp_all
  from inv_mutexD2 [OF inv this] own \<open>j \<noteq> i\<close> show "mJobsQueueMutex s' = Some j" by simp
qed


text \<open>
  The actions of a worker, one case for each branch of \<open>threadExecLoop\<close> that moves; the
  statements of the destructor likewise.
\<close>

lemma threadExecLoop_cases [consumes 1, case_names loop_exit loop_enter lock_avail lock_wait sleep
    inc test pop noop call_noop call_plain call_wrapped wrapper_dec dec]:
  assumes "threadExecLoop s i (mThreads s ! i) = Next s'"
  obtains "mThreads s ! i = LoopTest" "mTerminate s" "s' = setThread s i Exited"
  | "mThreads s ! i = LoopTest" "\<not> mTerminate s" "s' = setThread s i LockForGrab"
  | "mThreads s ! i = LockForGrab" "mJobsQueueMutex s = None" "jobAvailable s"
      "s' = setThread (s\<lparr>mJobsQueueMutex := Some i\<rparr>) i IncBusy"
  | "mThreads s ! i = LockForGrab" "mJobsQueueMutex s = None" "\<not> jobAvailable s"
      "s' = setThread (s\<lparr>mJobsQueueMutex := Some i\<rparr>) i CvWait"
  | "mThreads s ! i = CvWait" "s' = setThread (s\<lparr>mJobsQueueMutex := None\<rparr>) i Sleeping"
  | "mThreads s ! i = IncBusy"
      "s' = setThread (s\<lparr>mNumBusyThreads := mNumBusyThreads s + 1\<rparr>) i TestTerminate"
  | "mThreads s ! i = TestTerminate" "\<not> mTerminate s" "s' = setThread s i PopFront"
  | j q where "mThreads s ! i = PopFront" "mJobsQueue s = j # q"
      "s' = setThread (s\<lparr>mJobsQueue := q, mJobsQueueMutex := None,
                         dequeued := dequeued s @ [j]\<rparr>) i (Call (Some j))"
  | "mThreads s ! i = TestTerminate" "mTerminate s"
      "s' = setThread (s\<lparr>mJobsQueueMutex := None\<rparr>) i (Call None)"
  | "mThreads s ! i = Call None" "s' = setThread s i DecBusy"
  | k where "mThreads s ! i = Call (Some (Plain k))"
      "s' = setThread (lFunction (Plain k) s) i DecBusy"
  | e k where "mThreads s ! i = Call (Some (Wrapped e k))"
      "s' = setThread (lFunction (Wrapped e k) s) i (WrapperDec e)"
  | e where "mThreads s ! i = WrapperDec e"
      "s' = setThread (s\<lparr>mNumJobs := (mNumJobs s)(e := mNumJobs s e - 1)\<rparr>) i DecBusy"
  | "mThreads s ! i = DecBusy" "mJobsQueueMutex s = None"
      "s' = setThread (s\<lparr>mNumBusyThreads := mNumBusyThreads s - 1\<rparr>) i LoopTest"
proof (cases "mThreads s ! i")
  case (Call j)
  show ?thesis
  proof (cases j)
    case None
    with Call assms that(10) show ?thesis by simp
  next
    case (Some a)
    with Call assms that(11,12) show ?thesis by (cases a) simp_all
  qed
next
  case PopFront
  with assms that(8) show ?thesis
    by (cases "mJobsQueue s") simp_all
qed (use assms that in \<open>simp_all split: if_splits\<close>)

lemma destructorStep_cases [consumes 1, case_names set_terminate notify_all join]:
  assumes "destructorStep s = Next s'"
  obtains "dtor s = Alive" "s' = s\<lparr>mTerminate := True, dtor := DtorNotify\<rparr>"
  | "dtor s = DtorNotify" "s' = (notifyAll s)\<lparr>dtor := DtorJoin\<rparr>"
  | "dtor s = DtorJoin" "list_all (\<lambda>w. w = Exited) (mThreads s)" "mNumBusyThreads s = 0"
      "s' = s\<lparr>dtor := Destroyed\<rparr>"
  using assms by (cases "dtor s") (simp_all add: destructorStep_def split: if_splits)

lemma threadExecLoop_mutex:
  assumes inv: "inv_mutex s" and i: "i < length (mThreads s)"
    and st: "threadExecLoop s i (mThreads s ! i) = Next s'"
  shows "inv_mutex s'"
  using st
proof (cases rule: threadExecLoop_cases)
  case lock_avail
  with inv i show ?thesis by (intro inv_mutex_acquire [OF inv i]) (simp_all add: setThread_def)
next
  case lock_wait
  with inv i show ?thesis by (intro inv_mutex_acquire [OF inv i]) (simp_all add: setThread_def)
next
  case sleep
  with inv i show ?thesis by (intro inv_mutex_release [OF inv i]) (simp_all add: setThread_def)
next
  case (pop j q)
  with inv i show ?thesis by (intro inv_mutex_release [OF inv i]) (simp_all add: setThread_def)
next
  case noop
  with inv i show ?thesis by (intro inv_mutex_release [OF inv i]) (simp_all add: setThread_def)
qed (use inv i in \<open>(intro inv_mutex_same [OF inv i], simp_all add: setThread_def lFunction_def)+\<close>)

lemma inv_mutex_cong:
  assumes "inv_mutex s" "mThreads s' = mThreads s" "mJobsQueueMutex s' = mJobsQueueMutex s"
  shows "inv_mutex s'"
  using assms(1) unfolding inv_mutex_def assms(2,3) .

lemma holdsMutex_wake: "holdsMutex (wake w) = holdsMutex w"
  by (cases w) (simp_all add: wake_def)

lemma destructorStep_mutex:
  assumes inv: "inv_mutex s" and st: "destructorStep s = Next s'"
  shows "inv_mutex s'"
  using st
proof (cases rule: destructorStep_cases)
  case set_terminate
  show ?thesis unfolding set_terminate(2) by (rule inv_mutex_cong [OF inv]) simp_all
next
  case notify_all
  show ?thesis unfolding notify_all(2)
  proof (rule inv_mutexI)
    fix j assume "mJobsQueueMutex ((notifyAll s)\<lparr>dtor := DtorJoin\<rparr>) = Some j"
    then have "mJobsQueueMutex s = Some j" by (simp add: notifyAll_def)
    from inv_mutexD1 [OF inv this]
    show "j < length (mThreads ((notifyAll s)\<lparr>dtor := DtorJoin\<rparr>))
        \<and> holdsMutex (mThreads ((notifyAll s)\<lparr>dtor := DtorJoin\<rparr>) ! j)"
      by (simp add: notifyAll_def holdsMutex_wake)
  next
    fix j assume "j < length (mThreads ((notifyAll s)\<lparr>dtor := DtorJoin\<rparr>))"
      "holdsMutex (mThreads ((notifyAll s)\<lparr>dtor := DtorJoin\<rparr>) ! j)"
    then have "j < length (mThreads s)" "holdsMutex (mThreads s ! j)"
      by (simp_all add: notifyAll_def holdsMutex_wake)
    from inv_mutexD2 [OF inv this]
    show "mJobsQueueMutex ((notifyAll s)\<lparr>dtor := DtorJoin\<rparr>) = Some j"
      by (simp add: notifyAll_def)
  qed
next
  case join
  show ?thesis unfolding join(4) by (rule inv_mutex_cong [OF inv]) simp_all
qed

lemma wake_mutex:
  assumes "inv_mutex s" "i < length (mThreads s)" "mThreads s ! i = Sleeping"
  shows "inv_mutex (setThread s i LockForGrab)"
  by (rule inv_mutex_same [OF assms(1,2)]) (simp_all add: assms(3) setThread_def)

lemma step_mutex:
  assumes "inv_mutex s" "step s ev = Next s'"
  shows "inv_mutex s'"
proof (rule step_invariant [where P = inv_mutex, OF assms])
  show "\<And>s k. inv_mutex s \<Longrightarrow> inv_mutex (push s (Plain k))"
    by (erule inv_mutex_cong) (simp_all add: push_def)
  show "\<And>s e k. inv_mutex s \<Longrightarrow>
          inv_mutex (s\<lparr>mNumJobs := (mNumJobs s)(e := mNumJobs s e + 1),
                       inAddJob := (e, k) # inAddJob s\<rparr>)"
    by (erule inv_mutex_cong) simp_all
  show "\<And>s e k. inv_mutex s \<Longrightarrow>
          inv_mutex (push (s\<lparr>inAddJob := remove1 (e, k) (inAddJob s)\<rparr>) (Wrapped e k))"
    by (erule inv_mutex_cong) (simp_all add: push_def)
qed (fact wake_mutex threadExecLoop_mutex destructorStep_mutex)+

lemma ThreadPool_mutex: "inv_mutex (ThreadPool n hw)"
  by (simp add: inv_mutex_def ThreadPool_def)

subsection \<open>The assertion of grabNextJob\<close>

text \<open>
  \<open>inv_avail\<close>: a worker that has passed the wait still has its predicate true, since
  it holds the mutex and the flag is never cleared; a worker that has found the flag
  clear has a job in the queue, since it holds the mutex and only the queue's state
  made the predicate true.
\<close>

lemma inv_availI:
  assumes "\<And>j. j < length (mThreads s) \<Longrightarrow> mThreads s ! j = IncBusy \<or> mThreads s ! j = TestTerminate
            \<Longrightarrow> jobAvailable s"
    and "\<And>j. j < length (mThreads s) \<Longrightarrow> mThreads s ! j = PopFront \<Longrightarrow> mJobsQueue s \<noteq> []"
  shows "inv_avail s"
  unfolding inv_avail_def using assms by blast

lemma inv_availD:
  "inv_avail s \<Longrightarrow> j < length (mThreads s) \<Longrightarrow> mThreads s ! j = IncBusy \<or> mThreads s ! j = TestTerminate
   \<Longrightarrow> jobAvailable s"
  unfolding inv_avail_def by blast

lemma inv_availD_pop:
  "inv_avail s \<Longrightarrow> j < length (mThreads s) \<Longrightarrow> mThreads s ! j = PopFront \<Longrightarrow> mJobsQueue s \<noteq> []"
  unfolding inv_avail_def by blast

lemma inv_avail_update:
  assumes inv: "inv_avail s" and i: "i < length (mThreads s)"
    and ws: "mThreads t = mThreads s"
    and mono: "jobAvailable s \<Longrightarrow> jobAvailable t"
    and qmono: "mJobsQueue s \<noteq> [] \<Longrightarrow> mJobsQueue t \<noteq> []"
    and w: "w = IncBusy \<or> w = TestTerminate \<Longrightarrow> jobAvailable t"
    and wp: "w = PopFront \<Longrightarrow> mJobsQueue t \<noteq> []"
  shows "inv_avail (setThread t i w)"
proof (rule inv_availI)
  let ?s' = "setThread t i w"
  have av: "jobAvailable ?s' = jobAvailable t"
    by (simp add: jobAvailable_def setThread_def)
  fix j assume j: "j < length (mThreads ?s')"
    "mThreads ?s' ! j = IncBusy \<or> mThreads ?s' ! j = TestTerminate"
  show "jobAvailable ?s'"
  proof (cases "j = i")
    case True
    with j i w ws show ?thesis unfolding av by (simp add: setThread_def)
  next
    case False
    with j have "j < length (mThreads s)"
      "mThreads s ! j = IncBusy \<or> mThreads s ! j = TestTerminate"
      by (simp_all add: setThread_def ws)
    from mono [OF inv_availD [OF inv this]] show ?thesis unfolding av .
  qed
next
  let ?s' = "setThread t i w"
  have q: "mJobsQueue ?s' = mJobsQueue t" by (simp add: setThread_def)
  fix j assume j: "j < length (mThreads ?s')" "mThreads ?s' ! j = PopFront"
  show "mJobsQueue ?s' \<noteq> []"
  proof (cases "j = i")
    case True
    with j i wp ws show ?thesis unfolding q by (simp add: setThread_def)
  next
    case False
    with j have "j < length (mThreads s)" "mThreads s ! j = PopFront"
      by (simp_all add: setThread_def ws)
    from qmono [OF inv_availD_pop [OF inv this]] show ?thesis unfolding q .
  qed
qed

lemma inv_avail_cong:
  assumes inv: "inv_avail s" and ws: "mThreads s' = mThreads s"
    and mono: "jobAvailable s \<Longrightarrow> jobAvailable s'"
    and qmono: "mJobsQueue s \<noteq> [] \<Longrightarrow> mJobsQueue s' \<noteq> []"
  shows "inv_avail s'"
proof (rule inv_availI)
  fix j assume "j < length (mThreads s')"
    "mThreads s' ! j = IncBusy \<or> mThreads s' ! j = TestTerminate"
  then have "j < length (mThreads s)" "mThreads s ! j = IncBusy \<or> mThreads s ! j = TestTerminate"
    unfolding ws by simp_all
  from mono [OF inv_availD [OF inv this]] show "jobAvailable s'" .
next
  fix j assume "j < length (mThreads s')" "mThreads s' ! j = PopFront"
  then have "j < length (mThreads s)" "mThreads s ! j = PopFront"
    unfolding ws by simp_all
  from qmono [OF inv_availD_pop [OF inv this]] show "mJobsQueue s' \<noteq> []" .
qed

lemma threadExecLoop_avail:
  assumes m: "inv_mutex s" and inv: "inv_avail s" and i: "i < length (mThreads s)"
    and st: "threadExecLoop s i (mThreads s ! i) = Next s'"
  shows "inv_avail s'"
  using st
proof (cases rule: threadExecLoop_cases)
  case (pop j q)
  from pop(1) i have own: "mJobsQueueMutex s = Some i"
    by (intro inv_mutexD2 [OF m]) simp_all
  have alone: False if l: "l < length (mThreads s')" "holdsMutex (mThreads s' ! l)" for l
  proof -
    from l i have "l \<noteq> i" unfolding pop(3) by (auto simp: setThread_def)
    moreover from l this have "l < length (mThreads s)" "holdsMutex (mThreads s ! l)"
      unfolding pop(3) by (auto simp: setThread_def)
    from inv_mutexD2 [OF m this] have "mJobsQueueMutex s = Some l" .
    ultimately show False using own by simp
  qed
  show ?thesis
  proof (rule inv_availI)
    fix l assume "l < length (mThreads s')"
      "mThreads s' ! l = IncBusy \<or> mThreads s' ! l = TestTerminate"
    then have False using alone [of l] by auto
    then show "jobAvailable s'" ..
  next
    fix l assume "l < length (mThreads s')" "mThreads s' ! l = PopFront"
    then have False using alone [of l] by auto
    then show "mJobsQueue s' \<noteq> []" ..
  qed
next
  case inc
  from inv_availD [OF inv i] inc(1) have "jobAvailable s" by simp
  then show ?thesis unfolding inc(2)
    by (intro inv_avail_update [OF inv i]) (simp_all add: jobAvailable_def)
next
  case test
  from inv_availD [OF inv i] test(1,2) have "mJobsQueue s \<noteq> []"
    by (simp add: jobAvailable_def)
  then show ?thesis unfolding test(3)
    by (intro inv_avail_update [OF inv i]) simp_all
qed (simp_all only:, (rule inv_avail_update [OF inv i],
       simp_all add: lFunction_def jobAvailable_def)+)

lemma destructorStep_avail:
  assumes inv: "inv_avail s" and st: "destructorStep s = Next s'"
  shows "inv_avail s'"
  using st
proof (cases rule: destructorStep_cases)
  case set_terminate
  show ?thesis unfolding set_terminate(2)
    by (rule inv_avail_cong [OF inv]) (simp_all add: jobAvailable_def)
next
  case notify_all
  have w: "wake w = IncBusy \<longleftrightarrow> w = IncBusy" "wake w = TestTerminate \<longleftrightarrow> w = TestTerminate"
    "wake w = PopFront \<longleftrightarrow> w = PopFront" for w
    by (auto simp: wake_def)
  show ?thesis unfolding notify_all(2)
  proof (rule inv_availI)
    fix j assume "j < length (mThreads ((notifyAll s)\<lparr>dtor := DtorJoin\<rparr>))"
      "mThreads ((notifyAll s)\<lparr>dtor := DtorJoin\<rparr>) ! j = IncBusy
       \<or> mThreads ((notifyAll s)\<lparr>dtor := DtorJoin\<rparr>) ! j = TestTerminate"
    then have "j < length (mThreads s)"
      "mThreads s ! j = IncBusy \<or> mThreads s ! j = TestTerminate"
      by (simp_all add: notifyAll_def w)
    from inv_availD [OF inv this] show "jobAvailable ((notifyAll s)\<lparr>dtor := DtorJoin\<rparr>)"
      by (simp add: jobAvailable_def notifyAll_def)
  next
    fix j assume "j < length (mThreads ((notifyAll s)\<lparr>dtor := DtorJoin\<rparr>))"
      "mThreads ((notifyAll s)\<lparr>dtor := DtorJoin\<rparr>) ! j = PopFront"
    then have "j < length (mThreads s)" "mThreads s ! j = PopFront"
      by (simp_all add: notifyAll_def w)
    from inv_availD_pop [OF inv this] show "mJobsQueue ((notifyAll s)\<lparr>dtor := DtorJoin\<rparr>) \<noteq> []"
      by (simp add: notifyAll_def)
  qed
next
  case join
  show ?thesis unfolding join(4)
    by (rule inv_avail_cong [OF inv]) (simp_all add: jobAvailable_def)
qed

lemma wake_avail:
  assumes "inv_avail s" "i < length (mThreads s)" "mThreads s ! i = Sleeping"
  shows "inv_avail (setThread s i LockForGrab)"
  by (rule inv_avail_update [OF assms(1,2)]) simp_all


lemma push_avail: "inv_avail s \<Longrightarrow> inv_avail (push s j)"
  by (erule inv_avail_cong) (simp_all add: push_def jobAvailable_def)


lemma push_mutex: "inv_mutex s \<Longrightarrow> inv_mutex (push s j)"
  by (erule inv_mutex_cong) (simp_all add: push_def)

lemma step_avail:
  assumes "inv_mutex s \<and> inv_avail s" "step s ev = Next s'"
  shows "inv_mutex s' \<and> inv_avail s'"
proof (rule step_invariant [where P = "\<lambda>s. inv_mutex s \<and> inv_avail s", OF assms])
  fix s i s'
  assume a: "inv_mutex s \<and> inv_avail s" "i < length (mThreads s)"
    "threadExecLoop s i (mThreads s ! i) = Next s'"
  from a have "inv_mutex s'" by (intro threadExecLoop_mutex [of s i s']) simp_all
  moreover from a have "inv_avail s'" by (intro threadExecLoop_avail [of s i s']) simp_all
  ultimately show "inv_mutex s' \<and> inv_avail s'" ..
next
  fix s s'
  assume a: "inv_mutex s \<and> inv_avail s" "destructorStep s = Next s'"
  from a have "inv_mutex s'" by (intro destructorStep_mutex [of s s']) simp_all
  moreover from a have "inv_avail s'" by (intro destructorStep_avail [of s s']) simp_all
  ultimately show "inv_mutex s' \<and> inv_avail s'" ..
next
  fix s i
  assume a: "inv_mutex s \<and> inv_avail s" "i < length (mThreads s)" "mThreads s ! i = Sleeping"
  from a have "inv_mutex (setThread s i LockForGrab)" by (intro wake_mutex) simp_all
  moreover from a have "inv_avail (setThread s i LockForGrab)" by (intro wake_avail) simp_all
  ultimately show "inv_mutex (setThread s i LockForGrab) \<and> inv_avail (setThread s i LockForGrab)" ..
next
  fix s k
  assume "inv_mutex s \<and> inv_avail s"
  then show "inv_mutex (push s (Plain k)) \<and> inv_avail (push s (Plain k))"
    by (simp add: push_avail push_mutex)
next
  fix s e k
  assume a: "inv_mutex s \<and> inv_avail s"
  let ?t = "s\<lparr>mNumJobs := (mNumJobs s)(e := mNumJobs s e + 1), inAddJob := (e, k) # inAddJob s\<rparr>"
  from a have m: "inv_mutex s" and v: "inv_avail s" by simp_all
  have "inv_mutex ?t" by (rule inv_mutex_cong [OF m]) simp_all
  moreover have "inv_avail ?t"
    by (rule inv_avail_cong [OF v]) (simp_all add: jobAvailable_def)
  ultimately show "inv_mutex ?t \<and> inv_avail ?t" ..
next
  fix s e k
  assume a: "inv_mutex s \<and> inv_avail s"
  let ?t = "s\<lparr>inAddJob := remove1 (e, k) (inAddJob s)\<rparr>"
  from a have m: "inv_mutex s" and v: "inv_avail s" by simp_all
  have "inv_mutex ?t" by (rule inv_mutex_cong [OF m]) simp_all
  moreover have "inv_avail ?t"
    by (rule inv_avail_cong [OF v]) (simp_all add: jobAvailable_def)
  ultimately show "inv_mutex (push ?t (Wrapped e k)) \<and> inv_avail (push ?t (Wrapped e k))"
    by (simp add: push_avail push_mutex)
qed

lemma ThreadPool_avail: "inv_avail (ThreadPool n hw)"
  by (simp add: inv_avail_def ThreadPool_def)

subsection \<open>The order of the queue\<close>

text \<open>\<open>inv_fifo\<close>: what was pushed is what was popped, followed by the queue.\<close>

lemma threadExecLoop_fifo:
  assumes inv: "inv_fifo s" and st: "threadExecLoop s i (mThreads s ! i) = Next s'"
  shows "inv_fifo s'"
  using st
  by (cases rule: threadExecLoop_cases)
     (use inv in \<open>simp_all add: inv_fifo_def setThread_def lFunction_def\<close>)

lemma destructorStep_fifo:
  assumes inv: "inv_fifo s" and st: "destructorStep s = Next s'"
  shows "inv_fifo s'"
  using st
  by (cases rule: destructorStep_cases)
     (use inv in \<open>simp_all add: inv_fifo_def notifyAll_def\<close>)

lemma step_fifo:
  assumes "inv_fifo s" "step s ev = Next s'"
  shows "inv_fifo s'"
proof (rule step_invariant [where P = inv_fifo, OF assms])
  fix s i s'
  assume "inv_fifo s" "threadExecLoop s i (mThreads s ! i) = Next s'"
  then show "inv_fifo s'" by (rule threadExecLoop_fifo)
next
  fix s s'
  assume "inv_fifo s" "destructorStep s = Next s'"
  then show "inv_fifo s'" by (rule destructorStep_fifo)
qed (simp_all add: inv_fifo_def push_def setThread_def)

lemma ThreadPool_fifo: "inv_fifo (ThreadPool n hw)"
  by (simp add: inv_fifo_def ThreadPool_def)

subsection \<open>The termination flag\<close>

text \<open>\<open>inv_term\<close>: the flag is set exactly when the destructor has started.\<close>

lemma threadExecLoop_term:
  assumes inv: "inv_term s" and st: "threadExecLoop s i (mThreads s ! i) = Next s'"
  shows "inv_term s'"
  using st
  by (cases rule: threadExecLoop_cases)
     (use inv in \<open>simp_all add: inv_term_def setThread_def lFunction_def\<close>)

lemma destructorStep_term:
  assumes inv: "inv_term s" and st: "destructorStep s = Next s'"
  shows "inv_term s'"
  using st
  by (cases rule: destructorStep_cases)
     (use inv in \<open>simp_all add: inv_term_def notifyAll_def\<close>)

lemma step_term:
  assumes "inv_term s" "step s ev = Next s'"
  shows "inv_term s'"
proof (rule step_invariant [where P = inv_term, OF assms])
  fix s i s'
  assume "inv_term s" "threadExecLoop s i (mThreads s ! i) = Next s'"
  then show "inv_term s'" by (rule threadExecLoop_term)
next
  fix s s'
  assume "inv_term s" "destructorStep s = Next s'"
  then show "inv_term s'" by (rule destructorStep_term)
qed (simp_all add: inv_term_def push_def setThread_def)

lemma ThreadPool_term: "inv_term (ThreadPool n hw)"
  by (simp add: inv_term_def ThreadPool_def)

subsection \<open>Popped, being called, finished\<close>

text \<open>
  \<open>inv_count\<close>: every popped job is either finished or being called by a worker, and
  the caller's counter is the number of finished jobs.
\<close>

lemma inCall_update:
  "i < length ws \<Longrightarrow>
   mset (inCall (ws[i := v])) + mset (called (ws ! i)) = mset (inCall ws) + mset (called v)"
proof (induction ws arbitrary: i)
  case Nil
  then show ?case by simp
next
  case (Cons w ws)
  show ?case
  proof (cases i)
    case 0
    then show ?thesis by (simp add: inCall_def)
  next
    case (Suc k)
    with Cons.prems have "k < length ws" by simp
    from Cons.IH [OF this] Suc show ?thesis by (simp add: inCall_def)
  qed
qed

lemma inCall_idle:
  assumes "i < length ws" "called (ws ! i) = []" "called v = []"
  shows "mset (inCall (ws[i := v])) = mset (inCall ws)"
  using inCall_update [OF assms(1), of v] assms(2,3) by simp

lemma inCall_wake: "inCall (map wake ws) = inCall ws"
proof -
  have "called (wake w) = called w" for w by (cases w) (simp_all add: wake_def)
  then show ?thesis by (simp add: inCall_def comp_def)
qed

lemma threadExecLoop_count:
  assumes inv: "inv_count s" and i: "i < length (mThreads s)"
    and st: "threadExecLoop s i (mThreads s ! i) = Next s'"
  shows "inv_count s'"
  using st
proof (cases rule: threadExecLoop_cases)
  case (pop j q)
  with inv inCall_update [OF i, of "Call (Some j)"] show ?thesis
    by (simp add: inv_count_def setThread_def)
next
  case (call_plain k)
  with inv inCall_update [OF i, of DecBusy] show ?thesis
    by (simp add: inv_count_def setThread_def lFunction_def)
next
  case (call_wrapped e k)
  with inv inCall_update [OF i, of "WrapperDec e"] show ?thesis
    by (simp add: inv_count_def setThread_def lFunction_def)
qed (use inv i in \<open>simp_all add: inv_count_def setThread_def inCall_idle\<close>)


lemma destructorStep_count:
  assumes inv: "inv_count s" and st: "destructorStep s = Next s'"
  shows "inv_count s'"
  using st
  by (cases rule: destructorStep_cases)
     (use inv in \<open>simp_all add: inv_count_def notifyAll_def inCall_wake\<close>)

lemma step_count:
  assumes "inv_count s" "step s ev = Next s'"
  shows "inv_count s'"
proof (rule step_invariant [where P = inv_count, OF assms])
  fix s i s'
  assume "inv_count s" "i < length (mThreads s)" "threadExecLoop s i (mThreads s ! i) = Next s'"
  then show "inv_count s'" by (rule threadExecLoop_count)
next
  fix s s'
  assume "inv_count s" "destructorStep s = Next s'"
  then show "inv_count s'" by (rule destructorStep_count)
next
  fix s i
  assume "inv_count s" "i < length (mThreads s)" "mThreads s ! i = Sleeping"
  then show "inv_count (setThread s i LockForGrab)"
    by (simp add: inv_count_def setThread_def inCall_idle)
qed (simp_all add: inv_count_def push_def)

lemma ThreadPool_count: "inv_count (ThreadPool n hw)"
  by (simp add: inv_count_def ThreadPool_def inCall_def)

subsection \<open>The executors' counters\<close>

text \<open>
  \<open>inv_exec\<close>: the counter of an executor is the number of its unfinished jobs, as a
  32-bit value.
\<close>

lemma length_filter_update_ring:
  assumes "i < length xs"
  shows "(of_nat (length (filter P (xs[i := v]))) :: 'a::ring_1) =
         of_nat (length (filter P xs)) - (if P (xs ! i) then 1 else 0) + (if P v then 1 else 0)"
proof -
  have "(of_nat (length (filter P (xs[i := v])) + (if P (xs ! i) then 1 else 0)) :: 'a) =
        of_nat (length (filter P xs) + (if P v then 1 else 0))"
    using length_filter_update [OF assms, of P v] by simp
  then show ?thesis
    by (simp add: algebra_simps split: if_splits)
qed

lemma length_filter_remove1:
  "x \<in> set xs \<Longrightarrow>
   length (filter P (remove1 x xs)) + (if P x then 1 else 0) = length (filter P xs)"
  by (induction xs) auto

lemma length_filter_remove1_ring:
  assumes "x \<in> set xs"
  shows "(of_nat (length (filter P (remove1 x xs))) :: 'a::ring_1) =
         of_nat (length (filter P xs)) - (if P x then 1 else 0)"
proof -
  have "(of_nat (length (filter P (remove1 x xs)) + (if P x then 1 else 0)) :: 'a) =
        of_nat (length (filter P xs))"
    using length_filter_remove1 [OF assms, of P] by simp
  then show ?thesis
    by (simp add: algebra_simps split: if_splits)
qed

lemma worksFor_wake: "worksFor e (wake w) = worksFor e w"
  by (cases w) (simp_all add: wake_def)


lemma threadExecLoop_exec:
  assumes inv: "inv_exec s" and i: "i < length (mThreads s)"
    and st: "threadExecLoop s i (mThreads s ! i) = Next s'"
  shows "inv_exec s'"
  using st
  by (cases rule: threadExecLoop_cases)
     (use inv i in \<open>simp_all add: inv_exec_def execOutstanding_def setThread_def lFunction_def
        length_filter_update_ring\<close>)


lemma filter_worksFor_wake: "filter (worksFor e) (map wake ws) = map wake (filter (worksFor e) ws)"
  by (induction ws) (simp_all add: worksFor_wake)

lemma destructorStep_exec:
  assumes inv: "inv_exec s" and st: "destructorStep s = Next s'"
  shows "inv_exec s'"
  using st
  by (cases rule: destructorStep_cases)
     (use inv in \<open>simp_all add: inv_exec_def execOutstanding_def notifyAll_def
        filter_worksFor_wake\<close>)

lemma step_exec:
  assumes "inv_exec s" "step s ev = Next s'"
  shows "inv_exec s'"
proof (rule step_invariant [where P = inv_exec, OF assms])
  fix s i s'
  assume "inv_exec s" "i < length (mThreads s)" "threadExecLoop s i (mThreads s ! i) = Next s'"
  then show "inv_exec s'" by (rule threadExecLoop_exec)
next
  fix s s'
  assume "inv_exec s" "destructorStep s = Next s'"
  then show "inv_exec s'" by (rule destructorStep_exec)
next
  fix s i
  assume "inv_exec s" "i < length (mThreads s)" "mThreads s ! i = Sleeping"
  then show "inv_exec (setThread s i LockForGrab)"
    by (simp add: inv_exec_def execOutstanding_def setThread_def length_filter_update_ring)
next
  fix s k
  assume "inv_exec s"
  then show "inv_exec (push s (Plain k))"
    by (simp add: inv_exec_def execOutstanding_def push_def)
next
  fix s e k
  assume "inv_exec s"
  then show "inv_exec (s\<lparr>mNumJobs := (mNumJobs s)(e := mNumJobs s e + 1),
                       inAddJob := (e, k) # inAddJob s\<rparr>)"
    by (simp add: inv_exec_def execOutstanding_def)
next
  fix s e k
  assume "inv_exec s" "(e, k) \<in> set (inAddJob s)"
  then show "inv_exec (push (s\<lparr>inAddJob := remove1 (e, k) (inAddJob s)\<rparr>) (Wrapped e k))"
    by (simp add: inv_exec_def execOutstanding_def push_def length_filter_remove1_ring)
qed

lemma ThreadPool_exec: "inv_exec (ThreadPool n hw)"
  by (simp add: inv_exec_def execOutstanding_def ThreadPool_def)

subsection \<open>Every invariant, along every execution\<close>

lemma run_busy: "run s evs = Next s' \<Longrightarrow> inv_busy s \<Longrightarrow> inv_busy s'"
  by (rule run_invariant [where P = inv_busy]) (auto simp del: step.simps intro: step_busy)

lemma run_avail:
  "run s evs = Next s' \<Longrightarrow> inv_mutex s \<and> inv_avail s \<Longrightarrow> inv_mutex s' \<and> inv_avail s'"
  by (rule run_invariant [where P = "\<lambda>s. inv_mutex s \<and> inv_avail s"])
     (auto simp del: step.simps dest: step_avail [rotated])

lemma run_fifo: "run s evs = Next s' \<Longrightarrow> inv_fifo s \<Longrightarrow> inv_fifo s'"
  by (rule run_invariant [where P = inv_fifo]) (auto simp del: step.simps intro: step_fifo)

lemma run_count: "run s evs = Next s' \<Longrightarrow> inv_count s \<Longrightarrow> inv_count s'"
  by (rule run_invariant [where P = inv_count]) (auto simp del: step.simps intro: step_count)

lemma run_term: "run s evs = Next s' \<Longrightarrow> inv_term s \<Longrightarrow> inv_term s'"
  by (rule run_invariant [where P = inv_term]) (auto simp del: step.simps intro: step_term)

lemma run_exec: "run s evs = Next s' \<Longrightarrow> inv_exec s \<Longrightarrow> inv_exec s'"
  by (rule run_invariant [where P = inv_exec]) (auto simp del: step.simps intro: step_exec)


lemma step_length:
  assumes "length (mThreads s) = N" "step s ev = Next s'"
  shows "length (mThreads s') = N"
proof (rule step_invariant [where P = "\<lambda>s. length (mThreads s) = N", OF assms])
  fix s i s'
  assume "length (mThreads s) = N" "threadExecLoop s i (mThreads s ! i) = Next s'"
  from this(2,1) show "length (mThreads s') = N"
    by (cases rule: threadExecLoop_cases) (simp_all add: setThread_def lFunction_def)
next
  fix s s'
  assume "length (mThreads s) = N" "destructorStep s = Next s'"
  from this(2,1) show "length (mThreads s') = N"
    by (cases rule: destructorStep_cases) (simp_all add: notifyAll_def)
qed (simp_all add: push_def setThread_def)

lemma run_length: "run s evs = Next s' \<Longrightarrow> length (mThreads s') = length (mThreads s)"
  by (rule run_invariant [where P = "\<lambda>t. length (mThreads t) = length (mThreads s)"])
     (auto simp del: step.simps intro: step_length)


text \<open>The history of pushes is the list of pushes of the schedule.\<close>

lemma addJob_submitted:
  "addJob s j w = Next s' \<Longrightarrow> submitted s' = submitted s @ [j]"
  by (erule addJob_cases) (simp_all add: push_def setThread_def)

lemma step_submitted:
  assumes "step s ev = Next s'"
  shows "submitted s' = submitted s @ pushes [ev]"
proof (cases ev)
  case (AddJob k w)
  with assms show ?thesis by (simp add: addJob_submitted split: if_splits)
next
  case WaitForCompletion
  with assms show ?thesis by (auto simp: waitForCompletion_def split: if_splits)
next
  case (Worker i)
  with assms have "threadExecLoop s i (mThreads s ! i) = Next s'" by (simp split: if_splits)
  then have "submitted s' = submitted s"
    by (cases rule: threadExecLoop_cases) (simp_all add: setThread_def lFunction_def)
  with Worker show ?thesis by simp
next
  case (Spurious i)
  with assms show ?thesis by (auto simp: setThread_def split: if_splits)
next
  case Destructor
  with assms have "destructorStep s = Next s'" by (simp split: if_splits)
  then have "submitted s' = submitted s"
    by (cases rule: destructorStep_cases) (simp_all add: notifyAll_def)
  with Destructor show ?thesis by simp
next
  case (ExecAddJobInc e k)
  with assms show ?thesis by (auto simp: execAddJobInc_def split: if_splits)
next
  case (ExecAddJobPush e k w)
  with assms have "addJob (s\<lparr>inAddJob := remove1 (e, k) (inAddJob s)\<rparr>) (Wrapped e k) w = Next s'"
    by (simp add: execAddJobPush_def split: if_splits)
  from addJob_submitted [OF this] ExecAddJobPush show ?thesis by simp
next
  case (ExecWaitForCompletion e)
  with assms show ?thesis by (auto simp: execWaitForCompletion_def split: if_splits)
qed

lemma pushes_append: "pushes (xs @ ys) = pushes xs @ pushes ys"
  by (induction xs rule: pushes.induct) simp_all

lemma run_submitted:
  "run s evs = Next s' \<Longrightarrow> submitted s' = submitted s @ pushes evs"
proof (induction evs arbitrary: s)
  case Nil
  then show ?case by simp
next
  case (Cons ev evs)
  show ?case
  proof (cases "step s ev")
    case (Next t)
    with Cons.prems have "run t evs = Next s'" by (simp del: step.simps)
    from Cons.IH [OF this] step_submitted [OF Next]
    have "submitted s' = submitted s @ pushes [ev] @ pushes evs" by simp
    also have "pushes [ev] @ pushes evs = pushes ([ev] @ evs)" by (simp only: pushes_append)
    finally show ?thesis by simp
  qed (use Cons.prems in \<open>simp_all del: step.simps\<close>)
qed

subsection \<open>Signed reading of the counters\<close>

lemma sint_of_nat_small: "n < 2 ^ 31 \<Longrightarrow> sint (of_nat n :: 32 word) = int n"
  by (simp add: signed_of_nat signed_take_bit_int_eq_self)

lemma positive_int_argument:
  assumes "0 <s (n :: 32 word)"
  shows "int (unat n) = sint n" and "unat n < 2 ^ 31"
proof -
  from assms have pos: "0 < sint n" by (simp add: word_sless_alt)
  have s: "sint n = signed_take_bit 31 (uint n)" by (simp add: sint_uint)
  have small: "uint n < 2 ^ 31"
  proof (rule ccontr)
    assume "\<not> uint n < 2 ^ 31"
    then have "2 ^ 31 \<le> uint n" by simp
    from signed_take_bit_int_less_eq [OF this] have "sint n \<le> uint n - 2 ^ 32" by (simp add: s)
    moreover have "uint n < 2 ^ 32" using uint_lt2p [of n] by simp
    ultimately show False using pos by simp
  qed
  have "- (2 ^ 31) \<le> (0::int)" by simp
  also have "0 \<le> uint n" by simp
  finally have low: "- (2 ^ 31) \<le> uint n" .
  from low small have "sint n = uint n" unfolding s by (rule signed_take_bit_int_eq_self)
  then show "int (unat n) = sint n" by (metis uint_nat)
  from small have "int (unat n) < 2 ^ 31" by (metis uint_nat)
  then have "int (unat n) < int (2 ^ 31)" by simp
  then show "unat n < 2 ^ 31" by (simp only: of_nat_less_iff)
qed

lemma numBusy_le: "numBusy ws \<le> length ws"
  by (simp add: numBusy_def)

lemma numBusy_0: "numBusy ws = 0 \<Longrightarrow> inCall ws = []"
proof (induction ws)
  case Nil
  then show ?case by (simp add: inCall_def)
next
  case (Cons w ws)
  then show ?case by (cases w) (simp_all add: inCall_def numBusy_def split: if_splits)
qed

section \<open>The pool\<close>

subsection \<open>The busy count and the drain\<close>

text \<open>
  A pool requested with a positive \<^verbatim>\<open>int\<close> has fewer than \<open>2 ^ 31\<close> workers, so the busy
  count, an \<^verbatim>\<open>int\<close>, can hold the number of busy workers.
\<close>

lemma positive_request_is_small:
  assumes "0 <s n"
  shows "getNumThreads (ThreadPool n hw) < 2 ^ 31"
proof -
  from assms have "n \<noteq> 0" by auto
  then have "getNumThreads (ThreadPool n hw) = unat n"
    by (simp add: getNumThreads_def ThreadPool_def numThreadsFor_def)
  with positive_int_argument(2) [OF assms] show ?thesis by simp
qed

lemma reachable_busy:
  assumes "run (ThreadPool n hw) evs = Next s" and "getNumThreads (ThreadPool n hw) < 2 ^ 31"
  shows "mNumBusyThreads s = of_nat (numBusy (mThreads s))"
    and "numBusy (mThreads s) < 2 ^ 31"
    and "sint (mNumBusyThreads s) = int (numBusy (mThreads s))"
proof -
  from run_busy [OF assms(1) ThreadPool_busy]
  show b: "mNumBusyThreads s = of_nat (numBusy (mThreads s))" by (simp add: inv_busy_def)
  from run_length [OF assms(1)] assms(2) have "length (mThreads s) < 2 ^ 31"
    by (simp add: getNumThreads_def)
  with numBusy_le [of "mThreads s"] show l: "numBusy (mThreads s) < 2 ^ 31" by simp
  from sint_of_nat_small [OF l] show "sint (mNumBusyThreads s) = int (numBusy (mThreads s))"
    unfolding b .
qed

text \<open>
  Claim C6. In every state that an execution of a constructed pool reaches, the busy
  count read as an \<^verbatim>\<open>int\<close> is the number of workers between their
  \<^verbatim>\<open>++mNumBusyThreads\<close> and their \<^verbatim>\<open>--mNumBusyThreads\<close>: it starts at 0, is never
  negative and never exceeds the number of workers. The pool has fewer than \<open>2 ^ 31\<close>
  workers, as every pool built from a positive \<^verbatim>\<open>int\<close> has.
\<close>
theorem busy_count_in_range:
  assumes "run (ThreadPool n hw) evs = Next s" and "getNumThreads (ThreadPool n hw) < 2 ^ 31"
  shows "getNumBusyThreads (ThreadPool n hw) = 0
       \<and> getNumBusyThreads s = int (numBusy (mThreads s))
       \<and> 0 \<le> getNumBusyThreads s
       \<and> getNumBusyThreads s \<le> int (getNumThreads s)"
proof -
  have "getNumBusyThreads (ThreadPool n hw) = 0"
    by (simp add: getNumBusyThreads_def ThreadPool_def)
  moreover from reachable_busy(3) [OF assms]
  have eq: "getNumBusyThreads s = int (numBusy (mThreads s))"
    by (simp add: getNumBusyThreads_def)
  moreover have "0 \<le> getNumBusyThreads s" unfolding eq by simp
  moreover have "getNumBusyThreads s \<le> int (getNumThreads s)"
    unfolding eq getNumThreads_def using numBusy_le [of "mThreads s"] by simp
  ultimately show ?thesis by simp
qed

text \<open>
  \<^verbatim>\<open>waitForCompletion\<close> of \<^verbatim>\<open>include/fbu/thread_pool.hpp\<close>: one evaluation of the loop
  condition returns exactly when the mutex is free, the queue is empty and the busy
  count is zero; it blocks while a worker is calling a job.
\<close>

lemma waitForCompletion_returns:
  assumes "run (ThreadPool n hw) evs = Next s" and "getNumThreads (ThreadPool n hw) < 2 ^ 31"
  shows "waitForCompletion s = Next s' \<longleftrightarrow>
         s' = s \<and> mJobsQueueMutex s = None \<and> mJobsQueue s = [] \<and> getNumBusyThreads s = 0"
proof -
  have "\<not> 0 <s mNumBusyThreads s \<longleftrightarrow> getNumBusyThreads s = 0"
    using reachable_busy(3) [OF assms]
    by (simp add: word_sless_alt getNumBusyThreads_def)
  then show ?thesis
    by (auto simp: waitForCompletion_def completionPending_def)
qed

lemma waitForCompletion_blocks_while_running:
  assumes "run (ThreadPool n hw) evs = Next s" and "getNumThreads (ThreadPool n hw) < 2 ^ 31"
    and "i < length (mThreads s)" and "mThreads s ! i = Call j"
  shows "waitForCompletion s = Blocked"
proof -
  have "isBusy (mThreads s ! i)" using assms(4) by simp
  with assms(3) have "mThreads s ! i \<in> set (filter isBusy (mThreads s))" by simp
  then have "filter isBusy (mThreads s) \<noteq> []" by (metis empty_iff empty_set)
  then have "0 < numBusy (mThreads s)" unfolding numBusy_def by simp
  with reachable_busy(3) [OF assms(1,2)] have "0 <s mNumBusyThreads s"
    by (simp add: word_sless_alt)
  then show ?thesis by (simp add: waitForCompletion_def completionPending_def)
qed

text \<open>
  Claim C2. When \<^verbatim>\<open>waitForCompletion\<close> returns after a schedule that pushed \<open>K\<close> jobs,
  each of which increments the counter, the counter is \<open>K\<close>, and the jobs that have
  run are the pushed jobs, each as often as it was pushed. This holds for every number
  of workers below \<open>2 ^ 31\<close>.
\<close>
theorem drain_runs_every_job:
  assumes "run (ThreadPool n hw) evs = Next s" and "getNumThreads (ThreadPool n hw) < 2 ^ 31"
    and "waitForCompletion s = Next s'"
  shows "lCounter s' = length (pushes evs) \<and> mset (finished s') = mset (pushes evs)"
proof -
  from assms(3) waitForCompletion_returns [OF assms(1,2), of s']
  have s': "s' = s" and q: "mJobsQueue s = []" and b: "getNumBusyThreads s = 0" by simp_all
  from b reachable_busy(3) [OF assms(1,2)] have "numBusy (mThreads s) = 0"
    by (simp add: getNumBusyThreads_def)
  then have idle: "inCall (mThreads s) = []" by (rule numBusy_0)
  from run_count [OF assms(1) ThreadPool_count] idle
  have c: "mset (dequeued s) = mset (finished s)" "lCounter s = length (finished s)"
    by (simp_all add: inv_count_def)
  from run_fifo [OF assms(1) ThreadPool_fifo] q have "submitted s = dequeued s"
    by (simp add: inv_fifo_def)
  moreover from run_submitted [OF assms(1)] have "submitted s = pushes evs"
    by (simp add: ThreadPool_def)
  ultimately have d: "dequeued s = pushes evs" by simp
  from c(1) d have m: "mset (finished s) = mset (pushes evs)" by simp
  then have "length (finished s) = length (pushes evs)" by (rule mset_eq_length)
  with c(2) m show ?thesis unfolding s' by simp
qed

subsection \<open>Evaluating the example executions\<close>

lemmas eval_defs =
  addJob_def notifyOne_def push_def setThread_def
  jobAvailable_def lFunction_def waitForCompletion_def completionPending_def
  destructorStep_def notifyAll_def wake_def execAddJobInc_def execAddJobPush_def
  execWaitForCompletion_def getNumThreads_def getNumBusyThreads_def word_sless_alt

lemma unat_numThreadsFor_2: "unat (numThreadsFor 2 hw) = Suc (Suc 0)"
  by (simp add: numThreadsFor_def)

lemma ThreadPool_2_eq:
  "ThreadPool 2 hw =
     \<lparr> mThreads = [LoopTest, LoopTest], mTerminate = False, mNumBusyThreads = 0,
       mJobsQueue = [], mJobsQueueMutex = None, dtor = Alive, mNumJobs = (\<lambda>e. 0),
       inAddJob = [], lCounter = 0, submitted = [], dequeued = [], finished = [] \<rparr>"
  by (simp add: ThreadPool_def unat_numThreadsFor_2)

lemma run_two_jobs_taken: "run (ThreadPool 2 hw) two_jobs_taken = Next two_jobs_running"
  by (simp add: two_jobs_taken_def two_jobs_running_def ThreadPool_2_eq eval_defs)

lemma run_two_jobs: "run (ThreadPool 2 hw) two_jobs = Next two_jobs_done"
  by (simp add: two_jobs_def two_jobs_taken_def two_jobs_done_def ThreadPool_2_eq eval_defs)



lemma ThreadPool_1_eq:
  "ThreadPool 1 hw =
     \<lparr> mThreads = [LoopTest], mTerminate = False, mNumBusyThreads = 0,
       mJobsQueue = [], mJobsQueueMutex = None, dtor = Alive, mNumJobs = (\<lambda>e. 0),
       inAddJob = [], lCounter = 0, submitted = [], dequeued = [], finished = [] \<rparr>"
  by (simp add: ThreadPool_def numThreadsFor_def)

lemma small_pool_1: "getNumThreads (ThreadPool 1 0) < 2 ^ 31"
  by (simp add: getNumThreads_def ThreadPool_1_eq)

subsection \<open>Construction\<close>

text \<open>
  Claim C5. A pool requested with a positive \<^verbatim>\<open>int\<close> has that many workers; a pool
  requested with 0 has as many as the hardware concurrency, or 2 when that is 0; the
  number is positive in every case, and no event of an execution changes it.
\<close>

theorem ThreadPool_numThreads:
  "(0 <s n \<longrightarrow> int (getNumThreads (ThreadPool n hw)) = sint n)
   \<and> getNumThreads (ThreadPool 0 hw) = (if hw \<noteq> 0 then unat hw else 2)
   \<and> 0 < getNumThreads (ThreadPool n hw)
   \<and> (run (ThreadPool n hw) evs = Next s \<longrightarrow> getNumThreads s = getNumThreads (ThreadPool n hw))"
proof (intro conjI impI)
  assume pos: "0 <s n"
  then have "n \<noteq> 0" by auto
  then have "getNumThreads (ThreadPool n hw) = unat n"
    by (simp add: getNumThreads_def ThreadPool_def numThreadsFor_def)
  with positive_int_argument(1) [OF pos]
  show "int (getNumThreads (ThreadPool n hw)) = sint n" by simp
next
  show "getNumThreads (ThreadPool 0 hw) = (if hw \<noteq> 0 then unat hw else 2)"
    by (simp add: getNumThreads_def ThreadPool_def numThreadsFor_def)
next
  have "numThreadsFor n hw \<noteq> 0" by (simp add: numThreadsFor_def)
  then show "0 < getNumThreads (ThreadPool n hw)"
    by (simp add: getNumThreads_def ThreadPool_def unat_gt_0)
next
  assume "run (ThreadPool n hw) evs = Next s"
  from run_length [OF this] show "getNumThreads s = getNumThreads (ThreadPool n hw)"
    by (simp add: getNumThreads_def)
qed

subsection \<open>Order of the jobs\<close>

lemma addJob_queue: "addJob s j w = Next t \<Longrightarrow> mJobsQueue t = mJobsQueue s @ [j]"
  by (erule addJob_cases) (simp_all add: push_def setThread_def)

lemma flag_clear_then_pop:
  assumes "i < length (mThreads s)" "mThreads s ! i = TestTerminate" "\<not> mTerminate s"
    "threadExecLoop s i (mThreads s ! i) = Next t"
  shows "mThreads t ! i = PopFront \<and> mJobsQueue t = mJobsQueue s \<and> dequeued t = dequeued s"
  using assms(4)
  by (cases rule: threadExecLoop_cases) (use assms(1-3) in \<open>simp_all add: setThread_def\<close>)

lemma pop_front:
  assumes "i < length (mThreads s)" "mThreads s ! i = PopFront"
    "threadExecLoop s i (mThreads s ! i) = Next t"
  shows "\<exists>j. mJobsQueue s = j # mJobsQueue t \<and> mThreads t ! i = Call (Some j)
             \<and> dequeued t = dequeued s @ [j]"
  using assms(3)
  by (cases rule: threadExecLoop_cases) (use assms(1,2) in \<open>simp_all add: setThread_def\<close>)


text \<open>
  Claim C4. The jobs that the workers have popped, in the order of the pops, followed by
  the queue, are the jobs pushed by the schedule, in the order of the schedule:
  \<^verbatim>\<open>addJob\<close> appends at the back of the queue; a worker that finds the flag clear goes
  on to the pop, and the pop takes the front. The order in which jobs finish is not
  fixed: in the execution \<open>two_jobs\<close> the job pushed second
  finishes first.
\<close>

theorem jobs_dequeued_in_submission_order:
  "(run (ThreadPool n hw) evs = Next s \<longrightarrow>
      submitted s = pushes evs \<and> pushes evs = dequeued s @ mJobsQueue s)
   \<and> (addJob p j w = Next q \<longrightarrow> mJobsQueue q = mJobsQueue p @ [j])
   \<and> (i < length (mThreads u) \<and> mThreads u ! i = TestTerminate \<and> \<not> mTerminate u
        \<and> threadExecLoop u i (mThreads u ! i) = Next v \<longrightarrow>
        mThreads v ! i = PopFront \<and> mJobsQueue v = mJobsQueue u \<and> dequeued v = dequeued u)
   \<and> (i < length (mThreads v) \<and> mThreads v ! i = PopFront
        \<and> threadExecLoop v i (mThreads v ! i) = Next r \<longrightarrow>
        (\<exists>k. mJobsQueue v = k # mJobsQueue r \<and> mThreads r ! i = Call (Some k)
             \<and> dequeued r = dequeued v @ [k]))
   \<and> (run (ThreadPool 2 hw) two_jobs = Next two_jobs_done
        \<and> submitted two_jobs_done = [Plain 0, Plain 1]
        \<and> dequeued two_jobs_done = [Plain 0, Plain 1]
        \<and> finished two_jobs_done = [Plain 1, Plain 0])"
proof (intro conjI impI)
  assume r: "run (ThreadPool n hw) evs = Next s"
  from run_submitted [OF r] show sub: "submitted s = pushes evs"
    by (simp add: ThreadPool_def)
  from run_fifo [OF r ThreadPool_fifo] sub show "pushes evs = dequeued s @ mJobsQueue s"
    by (simp add: inv_fifo_def)
next
  assume "addJob p j w = Next q"
  then show "mJobsQueue q = mJobsQueue p @ [j]" by (rule addJob_queue)
next
  assume a: "i < length (mThreads u) \<and> mThreads u ! i = TestTerminate \<and> \<not> mTerminate u
        \<and> threadExecLoop u i (mThreads u ! i) = Next v"
  with flag_clear_then_pop [of i u v] show "mThreads v ! i = PopFront" by blast
  from a flag_clear_then_pop [of i u v] show "mJobsQueue v = mJobsQueue u" by blast
  from a flag_clear_then_pop [of i u v] show "dequeued v = dequeued u" by blast
next
  assume "i < length (mThreads v) \<and> mThreads v ! i = PopFront
        \<and> threadExecLoop v i (mThreads v ! i) = Next r"
  then show "\<exists>k. mJobsQueue v = k # mJobsQueue r \<and> mThreads r ! i = Call (Some k)
             \<and> dequeued r = dequeued v @ [k]"
    using pop_front [of i v r] by blast
qed (simp_all add: run_two_jobs two_jobs_done_def)

subsection \<open>Shutdown\<close>

lemma threadExecLoop_terminating:
  assumes "threadExecLoop s i (mThreads s ! i) = Next s'"
  shows "mTerminate s' = mTerminate s" and "dtor s' = dtor s"
  using assms
  by (cases rule: threadExecLoop_cases; simp add: setThread_def lFunction_def)+

lemma addJob_frame:
  assumes "addJob s j w = Next s'"
  shows "mTerminate s' = mTerminate s" and "dtor s' = dtor s" and "dequeued s' = dequeued s"
    and "finished s' = finished s"
  using assms
  by (cases rule: addJob_cases; simp add: setThread_def push_def)+

lemma wake_no_sleeper: "Sleeping \<notin> wake ` set ws"
  by (auto simp: wake_def)

lemma flag_set_then_stand_in:
  assumes "i < length (mThreads s)" "mThreads s ! i = TestTerminate" "mTerminate s"
    "threadExecLoop s i (mThreads s ! i) = Next s'"
  shows "mThreads s' ! i = Call None \<and> mJobsQueue s' = mJobsQueue s \<and> dequeued s' = dequeued s"
  using assms(4)
  by (cases rule: threadExecLoop_cases) (use assms(1-3) in \<open>simp_all add: setThread_def\<close>)

text \<open>
  The flag and the destructor, event by event. An event never clears \<^verbatim>\<open>mTerminate\<close>,
  and the only event that sets it is the first statement of the destructor, which runs
  once; so along an execution the flag goes from false to true at most once. The
  destructor's second statement leaves no worker asleep on the condition variable at
  that moment, and the destructor returns only when every worker has left its loop,
  with the queue as it is. A worker that tests the flag when it is set takes no job.
  Whether the destructor does return is another matter, and so is a worker that has
  tested the flag before it was set: both are looked at below.
\<close>

lemma terminate_flag_and_destructor:
  "(step s ev = Next s' \<and> mTerminate s \<longrightarrow> mTerminate s')
   \<and> (step s ev = Next s' \<and> \<not> mTerminate s \<and> mTerminate s' \<longrightarrow>
        ev = Destructor \<and> dtor s = Alive \<and> dtor s' = DtorNotify)
   \<and> (run s evs = Next t \<and> mTerminate s \<longrightarrow> mTerminate t)
   \<and> (run (ThreadPool n hw) evs = Next t \<longrightarrow> (mTerminate t \<longleftrightarrow> dtor t \<noteq> Alive))
   \<and> (step s Destructor = Next s' \<and> dtor s = DtorNotify \<longrightarrow>
        Sleeping \<notin> set (mThreads s') \<and> dtor s' = DtorJoin)
   \<and> (step s ev = Next s' \<and> dtor s' = Destroyed \<longrightarrow>
        ev = Destructor \<and> list_all (\<lambda>w. w = Exited) (mThreads s)
        \<and> mJobsQueue s' = mJobsQueue s \<and> finished s' = finished s)
   \<and> (i < length (mThreads s) \<and> mThreads s ! i = TestTerminate \<and> mTerminate s
        \<and> threadExecLoop s i (mThreads s ! i) = Next s' \<longrightarrow>
        mThreads s' ! i = Call None \<and> mJobsQueue s' = mJobsQueue s \<and> dequeued s' = dequeued s)"
proof -
  have frame: "mTerminate s' = mTerminate s \<and> dtor s' = dtor s \<and> dtor s \<noteq> Destroyed"
    if st: "step s ev = Next s'" and ev: "ev \<noteq> Destructor" for s ev s'
  proof (cases ev)
    case (AddJob k w)
    with st have a: "addJob s (Plain k) w = Next s'" and "dtor s \<noteq> Destroyed"
      by (simp_all split: if_splits)
    with addJob_frame [OF a] show ?thesis by simp
  next
    case WaitForCompletion
    with st show ?thesis by (auto simp: waitForCompletion_def split: if_splits)
  next
    case (Worker i)
    with st have a: "threadExecLoop s i (mThreads s ! i) = Next s'" and "dtor s \<noteq> Destroyed"
      by (simp_all split: if_splits)
    with threadExecLoop_terminating [OF a] show ?thesis by simp
  next
    case (Spurious i)
    with st show ?thesis by (auto simp: setThread_def split: if_splits)
  next
    case Destructor
    with ev show ?thesis by simp
  next
    case (ExecAddJobInc e k)
    with st show ?thesis by (auto simp: execAddJobInc_def split: if_splits)
  next
    case (ExecAddJobPush e k w)
    with st have a: "addJob (s\<lparr>inAddJob := remove1 (e, k) (inAddJob s)\<rparr>) (Wrapped e k) w = Next s'"
      and "dtor s \<noteq> Destroyed"
      by (simp_all add: execAddJobPush_def split: if_splits)
    with addJob_frame [OF a] show ?thesis by simp
  next
    case (ExecWaitForCompletion e)
    with st show ?thesis by (auto simp: execWaitForCompletion_def split: if_splits)
  qed
  have dt: "(mTerminate s \<longrightarrow> mTerminate s')
      \<and> (\<not> mTerminate s \<and> mTerminate s' \<longrightarrow> dtor s = Alive \<and> dtor s' = DtorNotify)
      \<and> (dtor s = DtorNotify \<longrightarrow> Sleeping \<notin> set (mThreads s') \<and> dtor s' = DtorJoin)
      \<and> (dtor s' = Destroyed \<longrightarrow> list_all (\<lambda>w. w = Exited) (mThreads s))
      \<and> mJobsQueue s' = mJobsQueue s \<and> finished s' = finished s"
    if st: "step s Destructor = Next s'" for s s'
  proof -
    from st have "destructorStep s = Next s'" by (simp split: if_splits)
    then show ?thesis
      by (cases rule: destructorStep_cases) (simp_all add: notifyAll_def wake_no_sleeper)
  qed
  have mono: "mTerminate s'" if st: "step s ev = Next s'" and m: "mTerminate s" for s ev s'
  proof (cases "ev = Destructor")
    case True
    with st dt [of s s'] m show ?thesis by blast
  next
    case False
    with frame [OF st] m show ?thesis by blast
  qed
  have c1: "step s ev = Next s' \<and> mTerminate s \<longrightarrow> mTerminate s'"
    using mono by blast
  have c2: "step s ev = Next s' \<and> \<not> mTerminate s \<and> mTerminate s' \<longrightarrow>
        ev = Destructor \<and> dtor s = Alive \<and> dtor s' = DtorNotify"
  proof (cases "ev = Destructor")
    case True
    with dt [of s s'] show ?thesis by blast
  next
    case False
    with frame [of s ev s'] show ?thesis by blast
  qed
  have c3: "run s evs = Next t \<and> mTerminate s \<longrightarrow> mTerminate t"
  proof (intro impI, elim conjE)
    assume "run s evs = Next t" "mTerminate s"
    from this(2,1) show "mTerminate t"
      by (rule run_invariant [where P = mTerminate]) (rule mono)
  qed
  have c4: "run (ThreadPool n hw) evs = Next t \<longrightarrow> (mTerminate t \<longleftrightarrow> dtor t \<noteq> Alive)"
    using run_term [OF _ ThreadPool_term] by (auto simp: inv_term_def)
  have c5: "step s Destructor = Next s' \<and> dtor s = DtorNotify \<longrightarrow>
        Sleeping \<notin> set (mThreads s') \<and> dtor s' = DtorJoin"
    using dt [of s s'] by blast
  have c6: "step s ev = Next s' \<and> dtor s' = Destroyed \<longrightarrow>
        ev = Destructor \<and> list_all (\<lambda>w. w = Exited) (mThreads s)
        \<and> mJobsQueue s' = mJobsQueue s \<and> finished s' = finished s"
  proof (cases "ev = Destructor")
    case True
    with dt [of s s'] show ?thesis by blast
  next
    case False
    with frame [of s ev s'] show ?thesis by metis
  qed
  have c7: "i < length (mThreads s) \<and> mThreads s ! i = TestTerminate \<and> mTerminate s
        \<and> threadExecLoop s i (mThreads s ! i) = Next s' \<longrightarrow>
        mThreads s' ! i = Call None \<and> mJobsQueue s' = mJobsQueue s \<and> dequeued s' = dequeued s"
    using flag_set_then_stand_in [of i s s'] by blast
  from c1 c2 c3 c4 c5 c6 c7 show ?thesis by (intro conjI)
qed

subsection \<open>A worker that wakes up to the flag\<close>

lemma run_append:
  "run s (xs @ ys) =
     (case run s xs of Next t \<Rightarrow> run t ys | Blocked \<Rightarrow> Blocked
      | AssertionFailed \<Rightarrow> AssertionFailed)"
proof (induction xs arbitrary: s)
  case Nil
  then show ?case by simp
next
  case (Cons x xs)
  then show ?case by (cases "step s x") (simp_all del: step.simps)
qed

lemma numBusy_pos:
  assumes "i < length ws" "isBusy (ws ! i)"
  shows "0 < numBusy ws"
proof -
  from assms have "ws ! i \<in> set (filter isBusy ws)" by simp
  then have "filter isBusy ws \<noteq> []" by (metis empty_iff empty_set)
  then show ?thesis unfolding numBusy_def by simp
qed

text \<open>
  Claim C10. A worker that enters the wait of \<^verbatim>\<open>grabNextJob\<close> when the flag is set takes
  the mutex, increments the busy count and leaves with the stand-in callable: the queue
  and the list of popped jobs are as before, and the busy count is one higher, so
  \<^verbatim>\<open>getNumBusyThreads\<close> is positive at that point. After the stand-in has run and the
  worker has decremented, the count is as before; no caller's job has run.
\<close>

theorem grab_after_terminate:
  assumes "run (ThreadPool n hw) evs = Next s" and "getNumThreads (ThreadPool n hw) < 2 ^ 31"
    and "i < length (mThreads s)" and "mThreads s ! i = LockForGrab"
    and "mTerminate s" and "mJobsQueueMutex s = None" and "dtor s \<noteq> Destroyed"
  shows "\<exists>t u. run s [Worker i, Worker i, Worker i] = Next t
           \<and> mThreads t ! i = Call None
           \<and> mJobsQueue t = mJobsQueue s \<and> dequeued t = dequeued s
           \<and> mNumBusyThreads t = mNumBusyThreads s + 1
           \<and> 0 < getNumBusyThreads t
           \<and> run t [Worker i, Worker i] = Next u
           \<and> mThreads u ! i = LoopTest
           \<and> mJobsQueue u = mJobsQueue s \<and> dequeued u = dequeued s
           \<and> mNumBusyThreads u = mNumBusyThreads s
           \<and> lCounter u = lCounter s \<and> finished u = finished s"
proof -
  let ?s1 = "setThread (s\<lparr>mJobsQueueMutex := Some i\<rparr>) i IncBusy"
  let ?s2 = "setThread (?s1\<lparr>mNumBusyThreads := mNumBusyThreads ?s1 + 1\<rparr>) i TestTerminate"
  let ?t = "setThread (?s2\<lparr>mJobsQueueMutex := None\<rparr>) i (Call None)"
  let ?t1 = "setThread ?t i DecBusy"
  let ?u = "setThread (?t1\<lparr>mNumBusyThreads := mNumBusyThreads ?t1 - 1\<rparr>) i LoopTest"
  from assms(3-7) have 1: "step s (Worker i) = Next ?s1"
    by (simp add: jobAvailable_def)
  from assms(3-7) have 2: "step ?s1 (Worker i) = Next ?s2"
    by (simp add: setThread_def)
  from assms(3-7) have 3: "step ?s2 (Worker i) = Next ?t"
    by (simp add: setThread_def)
  from assms(3-7) have 4: "step ?t (Worker i) = Next ?t1"
    by (simp add: setThread_def)
  from assms(3-7) have 5: "step ?t1 (Worker i) = Next ?u"
    by (simp add: setThread_def)
  from 1 2 3 have rt: "run s [Worker i, Worker i, Worker i] = Next ?t"
    by (simp del: step.simps)
  from 4 5 have ru: "run ?t [Worker i, Worker i] = Next ?u"
    by (simp del: step.simps)
  from assms(1) rt have "run (ThreadPool n hw) (evs @ [Worker i, Worker i, Worker i]) = Next ?t"
    by (simp add: run_append del: step.simps run.simps)
  from reachable_busy(3) [OF this assms(2)]
  have "getNumBusyThreads ?t = int (numBusy (mThreads ?t))"
    by (simp add: getNumBusyThreads_def)
  moreover from assms(3) have "0 < numBusy (mThreads ?t)"
    by (intro numBusy_pos [of i]) (simp_all add: setThread_def)
  ultimately have pos: "0 < getNumBusyThreads ?t" by simp
  from assms(3) have "mThreads ?t ! i = Call None"
    "mJobsQueue ?t = mJobsQueue s" "dequeued ?t = dequeued s"
    "mNumBusyThreads ?t = mNumBusyThreads s + 1"
    "mThreads ?u ! i = LoopTest"
    "mJobsQueue ?u = mJobsQueue s" "dequeued ?u = dequeued s"
    "mNumBusyThreads ?u = mNumBusyThreads s"
    "lCounter ?u = lCounter s" "finished ?u = finished s"
    by (simp_all add: setThread_def)
  with rt ru pos show ?thesis by blast
qed

subsection \<open>Executors\<close>

text \<open>
  Claim C3. The wait of an executor returns exactly when that executor's own counter is
  zero, whatever else the state holds; in every reachable state the counter is the
  number of that executor's jobs that are not finished (counted and not yet pushed,
  queued, or on a worker before the wrapper's decrement), as a 32-bit value, so with
  fewer than \<open>2 ^ 32\<close> such jobs the wait returns exactly when there are none. Jobs of
  other executors do not enter.
\<close>

theorem executor_waits_for_own_jobs:
  "(run (ThreadPool n hw) evs = Next s \<longrightarrow>
      mNumJobs s A = of_nat (execOutstanding A s)
      \<and> (execOutstanding A s < 2 ^ 32 \<longrightarrow>
           (execWaitForCompletion s A = Next s \<longleftrightarrow> execOutstanding A s = 0)))
   \<and> execWaitForCompletion p A = (if mNumJobs p A = 0 then Next p else Blocked)
   \<and> (mNumJobs q A = mNumJobs p A \<longrightarrow>
        (execWaitForCompletion q A = Next q \<longleftrightarrow> execWaitForCompletion p A = Next p))"
proof (intro conjI impI)
  assume r: "run (ThreadPool n hw) evs = Next s"
  from run_exec [OF r ThreadPool_exec]
  show c: "mNumJobs s A = of_nat (execOutstanding A s)" by (simp add: inv_exec_def)
  assume "execOutstanding A s < 2 ^ 32"
  then have "execOutstanding A s < 2 ^ LENGTH(32)" by simp
  then have "unat (of_nat (execOutstanding A s) :: 32 word) = execOutstanding A s"
    by (rule of_nat_inverse [OF refl])
  then have "(of_nat (execOutstanding A s) :: 32 word) = 0 \<longleftrightarrow> execOutstanding A s = 0"
    by (cases "execOutstanding A s = 0") auto
  with c show "execWaitForCompletion s A = Next s \<longleftrightarrow> execOutstanding A s = 0"
    by (simp add: execWaitForCompletion_def)
qed (simp_all add: execWaitForCompletion_def)

subsection \<open>The assertions of the pool\<close>

text \<open>
  The two assertions of \<^verbatim>\<open>ThreadPool\<close> (a non-empty queue at the pop, a busy count of
  zero after the joins) hold in every execution that starts at a constructed pool: no
  schedule ends in \<open>AssertionFailed\<close>.
\<close>

lemma numBusy_exited:
  "list_all (\<lambda>w. w = Exited) ws \<Longrightarrow> numBusy ws = 0"
  by (induction ws) (simp_all add: numBusy_def)

lemma step_no_assertion:
  assumes b: "inv_busy s" and a: "inv_avail s"
  shows "step s ev \<noteq> AssertionFailed"
proof (cases ev)
  case (AddJob k w)
  then show ?thesis by (simp add: addJob_def split: option.splits)
next
  case WaitForCompletion
  then show ?thesis by (simp add: waitForCompletion_def)
next
  case (Worker i)
  show ?thesis
  proof (cases "i < length (mThreads s) \<and> mThreads s ! i = PopFront")
    case True
    with inv_availD_pop [OF a, of i] have "mJobsQueue s \<noteq> []" by simp
    with True Worker show ?thesis by (simp split: list.splits)
  next
    case False
    show ?thesis
    proof (cases "mThreads s ! i")
      case (Call j)
      with Worker show ?thesis
      proof (cases j)
        case None
        with Call Worker show ?thesis by simp
      next
        case (Some x)
        with Call Worker show ?thesis by (cases x) simp_all
      qed
    qed (use Worker False in \<open>simp_all\<close>)
  qed
next
  case (Spurious i)
  then show ?thesis by simp
next
  case Destructor
  from b have "list_all (\<lambda>w. w = Exited) (mThreads s) \<Longrightarrow> mNumBusyThreads s = 0"
    by (simp add: inv_busy_def numBusy_exited)
  with Destructor show ?thesis
    by (cases "dtor s") (auto simp: destructorStep_def)
next
  case (ExecAddJobInc e k)
  then show ?thesis by (simp add: execAddJobInc_def)
next
  case (ExecAddJobPush e k w)
  then show ?thesis by (simp add: execAddJobPush_def addJob_def split: option.splits)
next
  case (ExecWaitForCompletion e)
  then show ?thesis by (simp add: execWaitForCompletion_def)
qed

lemma run_no_assertion:
  assumes "inv_busy s" and "inv_mutex s \<and> inv_avail s"
  shows "run s evs \<noteq> AssertionFailed"
  using assms
proof (induction evs arbitrary: s)
  case Nil
  then show ?case by simp
next
  case (Cons ev evs)
  show ?case
  proof (cases "step s ev")
    case (Next t)
    from step_busy [OF Cons.prems(1) Next] step_avail [OF Cons.prems(2) Next]
    have "run t evs \<noteq> AssertionFailed" by (rule Cons.IH)
    with Next show ?thesis by (simp del: step.simps)
  next
    case Blocked
    then show ?thesis by (simp del: step.simps)
  next
    case AssertionFailed
    with step_no_assertion [of s ev] Cons.prems show ?thesis by blast
  qed
qed

lemma ThreadPool_no_assertion: "run (ThreadPool n hw) evs \<noteq> AssertionFailed"
  by (rule run_no_assertion) (simp_all add: ThreadPool_busy ThreadPool_mutex ThreadPool_avail)

subsection \<open>A notification that comes too early\<close>

text \<open>
  Claim C9, at the destructor's wake-up and join. The claim has the destructor, once it
  has set the flag, wake all waiting workers and join every worker thread. The
  destructor stores the flag and notifies without the mutex. In the execution
  \<open>missed_notification\<close> of a pool of one worker the worker has found the predicate of
  its wait false and has not yet blocked when the flag is stored and the notification
  sent: it goes to sleep after both. In the state reached the flag is set, the
  destructor stands at \<^verbatim>\<open>join\<close> and cannot take it, and the worker sleeps and cannot
  move: the worker is not woken and the join does not return.
\<close>

theorem destructor_join_can_hang:
  "run (ThreadPool 1 0) missed_notification = Next join_hangs
   \<and> mTerminate join_hangs \<and> dtor join_hangs = DtorJoin \<and> mThreads join_hangs = [Sleeping]
   \<and> step join_hangs Destructor = Blocked
   \<and> step join_hangs (Worker i) = Blocked"
  by (simp add: ThreadPool_1_eq missed_notification_def join_hangs_def eval_defs)

text \<open>
  From that state no schedule of the destructor and the workers goes on: only an event
  from outside (a job pushed by another thread, a spurious wake-up) releases the worker.
\<close>

lemma run_blocked:
  "step s ev = Blocked \<Longrightarrow> run s (ev # evs) = Blocked"
  by (simp del: step.simps)

lemma sleeper_stays_asleep:
  assumes "ev = Destructor \<or> ev = Worker i"
  shows "run join_hangs (ev # evs) = Blocked"
proof (rule run_blocked)
  from assms show "step join_hangs ev = Blocked"
    by (auto simp: join_hangs_def destructorStep_def)
qed

subsection \<open>A flag that is set between the test and the pop\<close>

text \<open>
  The worker tests the flag under the mutex, the destructor stores it without: the
  store can fall between the test of line 167 and the pop of line 171. Then a job is
  taken from the queue, and run, after the flag is set.
\<close>

lemma job_taken_after_flag:
  "run (ThreadPool 1 0) (take 6 flag_after_test)
     = Next (one_job_locked\<lparr>mTerminate := True, dtor := DtorNotify\<rparr>)
   \<and> run (ThreadPool 1 0) flag_after_test = Next late_job_done
   \<and> dequeued late_job_done = [Plain 0] \<and> finished late_job_done = [Plain 0]"
  by (simp add: ThreadPool_1_eq flag_after_test_def one_job_locked_def late_job_done_def
        eval_defs)

section \<open>The job counter\<close>

lemma counterRun_append:
  "counterRun c (xs @ ys) =
     (case counterRun c xs of Next c' \<Rightarrow> counterRun c' ys | Blocked \<Rightarrow> Blocked
      | AssertionFailed \<Rightarrow> AssertionFailed)"
proof (induction xs arbitrary: c)
  case Nil
  then show ?case by simp
next
  case (Cons x xs)
  show ?case
  proof (cases x)
    case Increment
    with Cons show ?thesis by (simp add: increment_def)
  next
    case Decrement
    with Cons show ?thesis by (simp add: decrement_def)
  qed
qed

lemma counterRun_increments:
  "counterRun c (replicate m Increment) = Next (c + of_nat m)"
  by (induction m arbitrary: c) (simp_all add: increment_def algebra_simps)

lemma paired_increments: "paired n (replicate m Increment @ ops) = paired (n + m) ops"
  by (induction m arbitrary: n) simp_all

lemma counterRun_count:
  "counterRun c0 ops = Next c \<Longrightarrow>
   c = c0 + of_nat (count_list ops Increment) - of_nat (count_list ops Decrement)"
proof (induction ops arbitrary: c0)
  case Nil
  then show ?case by simp
next
  case (Cons x ops)
  show ?case
  proof (cases x)
    case Increment
    with Cons.prems have "counterRun (c0 + 1) ops = Next c" by (simp add: increment_def)
    from Cons.IH [OF this] Increment show ?thesis by simp
  next
    case Decrement
    with Cons.prems have "counterRun (c0 - 1) ops = Next c"
      by (simp add: decrement_def split: if_splits)
    from Cons.IH [OF this] Decrement show ?thesis by simp
  qed
qed

lemma peak_ge: "n \<le> peak n ops"
  by (induction n ops rule: peak.induct) simp_all

lemma counterRun_paired:
  "paired n ops \<Longrightarrow> peak n ops < 2 ^ 31 \<Longrightarrow>
   \<exists>m < 2 ^ 31. counterRun (of_nat n) ops = Next (of_nat m)"
proof (induction n ops rule: paired.induct)
  case (1 n)
  then show ?case by auto
next
  case (2 n ops)
  from 2 have "\<exists>m < 2 ^ 31. counterRun (of_nat (Suc n)) ops = Next (of_nat m)" by simp
  then show ?case by (simp add: increment_def add.commute)
next
  case (3 n ops)
  from 3 have n: "0 < n" "n < 2 ^ 31" using peak_ge [of n "Decrement # ops"] by simp_all
  from 3 have "\<exists>m < 2 ^ 31. counterRun (of_nat (n - 1)) ops = Next (of_nat m)" by simp
  moreover from n have "0 <s (of_nat n :: 32 word)"
    by (simp add: word_sless_alt sint_of_nat_small)
  moreover from n have "(of_nat n :: 32 word) - 1 = of_nat (n - 1)" by simp
  ultimately show ?case by (simp add: decrement_def)
qed

lemma paired_take: "paired n ops \<Longrightarrow> paired n (take k ops)"
proof (induction n ops arbitrary: k rule: paired.induct)
  case (1 n)
  then show ?case by simp
next
  case (2 n ops)
  then show ?case by (cases k) simp_all
next
  case (3 n ops)
  then show ?case by (cases k) simp_all
qed

lemma peak_take: "peak n (take k ops) \<le> peak n ops"
proof (induction n ops arbitrary: k rule: peak.induct)
  case (1 n)
  then show ?case by simp
next
  case (2 n ops)
  show ?case
  proof (cases k)
    case 0
    then show ?thesis using peak_ge [of n "Increment # ops"] by simp
  next
    case (Suc j)
    with 2 [of j] show ?thesis by (simp add: max.coboundedI2)
  qed
next
  case (3 n ops)
  show ?case
  proof (cases k)
    case 0
    then show ?thesis using peak_ge [of n "Decrement # ops"] by simp
  next
    case (Suc j)
    with 3 [of j] show ?thesis by (simp add: max.coboundedI2)
  qed
qed


lemma counterRun_reachable_nonneg:
  assumes "paired 0 ops" "peak 0 ops < 2 ^ 31"
  shows "\<exists>c. counterRun JobCounter (take k ops) = Next c \<and> 0 \<le> sint c"
proof -
  from assms(1) have p: "paired 0 (take k ops)" by (rule paired_take)
  from assms(2) peak_take [of 0 k ops] have "peak 0 (take k ops) < 2 ^ 31" by simp
  from counterRun_paired [OF p this]
  obtain m where m: "m < 2 ^ 31" "counterRun JobCounter (take k ops) = Next (of_nat m)"
    by (auto simp: JobCounter_def)
  from sint_of_nat_small [OF m(1)] have "0 \<le> sint (of_nat m :: 32 word)" by simp
  with m(2) show ?thesis by blast
qed

text \<open>
  Claim C7. Whatever the order of the calls, when a run of a fresh counter has made as
  many decrements as increments, the count is zero and \<^verbatim>\<open>waitForCompletion\<close> returns;
  the run does complete when every decrement follows its increment and fewer than
  \<open>2 ^ 31\<close> increments are unmatched at any time. A decrement undoes an increment and an
  increment undoes a decrement.
\<close>

theorem counter_balanced_is_zero:
  "(counterRun JobCounter ops = Next c
      \<and> count_list ops Increment = C \<and> count_list ops Decrement = C \<longrightarrow>
      c = 0 \<and> counterWaitForCompletion c = Next c)
   \<and> (paired 0 ops \<and> peak 0 ops < 2 ^ 31 \<longrightarrow> (\<exists>c'. counterRun JobCounter ops = Next c'))
   \<and> (increment a = Next b \<and> 0 <s b \<longrightarrow> decrement b = Next a)
   \<and> (decrement a = Next b \<longrightarrow> increment b = Next a)"
proof (intro conjI impI)
  assume a: "counterRun JobCounter ops = Next c
      \<and> count_list ops Increment = C \<and> count_list ops Decrement = C"
  then have "counterRun 0 ops = Next c" by (simp add: JobCounter_def)
  from counterRun_count [OF this] a show "c = 0" by simp
  then show "counterWaitForCompletion c = Next c" by (simp add: counterWaitForCompletion_def)
next
  assume "paired 0 ops \<and> peak 0 ops < 2 ^ 31"
  then have "\<exists>c. counterRun JobCounter (take (length ops) ops) = Next c \<and> 0 \<le> sint c"
    by (intro counterRun_reachable_nonneg) simp_all
  then show "\<exists>c'. counterRun JobCounter ops = Next c'" by auto
next
  assume "increment a = Next b \<and> 0 <s b"
  then show "decrement b = Next a" by (auto simp: increment_def decrement_def)
next
  assume "decrement a = Next b"
  then show "increment b = Next a" by (auto simp: increment_def decrement_def split: if_splits)
qed

text \<open>
  Claim C8, as amended. When every decrement comes after more increments than decrements
  and fewer than \<open>2 ^ 31\<close> increments are unmatched at any time, no call of the run fails
  its assertion and the count is not negative in any state that the run goes through.
  A decrement at a count that is not positive fails the assertion, and the run ends
  there.
\<close>

theorem counter_assertion_holds_when_paired:
  "(paired 0 ops \<and> peak 0 ops < 2 ^ 31 \<longrightarrow>
      (\<forall>k. \<exists>c. counterRun JobCounter (take k ops) = Next c \<and> 0 \<le> sint c))
   \<and> decrement JobCounter = AssertionFailed
   \<and> (\<not> 0 <s a \<longrightarrow> counterRun a (Decrement # rest) = AssertionFailed)"
proof (intro conjI impI allI)
  fix k
  assume "paired 0 ops \<and> peak 0 ops < 2 ^ 31"
  then show "\<exists>c. counterRun JobCounter (take k ops) = Next c \<and> 0 \<le> sint c"
    by (intro counterRun_reachable_nonneg) simp_all
next
  show "decrement JobCounter = AssertionFailed"
    by (simp add: decrement_def JobCounter_def)
next
  assume "\<not> 0 <s a"
  then show "counterRun a (Decrement # rest) = AssertionFailed"
    by (simp add: decrement_def)
qed

text \<open>
  The claim C8 as first stated has no bound on the unmatched increments. After
  \<open>2 ^ 31\<close> increments of a fresh counter, each of them before any decrement, the count
  is negative, and the decrement that follows fails its assertion.
\<close>

theorem counter_overflow_counterexample:
  "paired 0 (replicate 2147483648 Increment @ [Decrement])
   \<and> counterRun JobCounter (replicate 2147483648 Increment) = Next (- 2147483648)
   \<and> sint (- 2147483648 :: 32 word) < 0
   \<and> counterRun JobCounter (replicate 2147483648 Increment @ [Decrement]) = AssertionFailed"
proof -
  have 1: "paired 0 (replicate 2147483648 Increment @ [Decrement])"
    by (simp add: paired_increments)
  have 2: "counterRun JobCounter (replicate 2147483648 Increment) = Next (- 2147483648)"
    by (simp add: counterRun_increments JobCounter_def)
  have 3: "sint (- 2147483648 :: 32 word) < 0" by simp
  then have "\<not> 0 <s (- 2147483648 :: 32 word)" by (simp add: word_sless_alt)
  with 2 have 4: "counterRun JobCounter (replicate 2147483648 Increment @ [Decrement])
      = AssertionFailed"
    by (simp add: counterRun_append decrement_def)
  from 1 2 3 4 show ?thesis by simp
qed

section \<open>The legacy copy\<close>

text \<open>
  Claim C1, in \<^verbatim>\<open>cpp/thread_pool.hpp\<close>. One worker, one job: the job has been popped, so
  the queue is empty, and the worker is still calling it, so the busy count is one more
  than at construction and the caller's counter is still 0. The \<^verbatim>\<open>waitForCompletion\<close>
  of the legacy copy returns in this state, whatever the busy count started from; the
  one of \<^verbatim>\<open>include/fbu/thread_pool.hpp\<close> blocks in the state that its own constructor
  leads to.
\<close>

theorem legacy_waitForCompletion_returns_early:
  "legacy_run (legacy_ThreadPool 1 0 junk) one_job_taken
     = Next (one_job_running\<lparr>mNumBusyThreads := junk + 1\<rparr>)
   \<and> mJobsQueue (one_job_running\<lparr>mNumBusyThreads := junk + 1\<rparr>) = []
   \<and> mThreads (one_job_running\<lparr>mNumBusyThreads := junk + 1\<rparr>) = [Call (Some (Plain 0))]
   \<and> lCounter (one_job_running\<lparr>mNumBusyThreads := junk + 1\<rparr>) = 0
   \<and> legacy_waitForCompletion (one_job_running\<lparr>mNumBusyThreads := junk + 1\<rparr>)
     = Next (one_job_running\<lparr>mNumBusyThreads := junk + 1\<rparr>)
   \<and> run (ThreadPool 1 0) one_job_taken = Next one_job_running
   \<and> waitForCompletion one_job_running = Blocked"
  by (simp add: one_job_taken_def one_job_running_def legacy_ThreadPool_def ThreadPool_def numThreadsFor_def
      legacy_threadExecLoop_def legacy_waitForCompletion_def legacy_completionPending_def
      eval_defs)

section \<open>The theorems at the example executions\<close>

lemma small_pool_2: "getNumThreads (ThreadPool 2 0) < 2 ^ 31"
  by (simp add: getNumThreads_def ThreadPool_2_eq)

theorem busy_count_in_range_witness:
  "run (ThreadPool 2 0) two_jobs_taken = Next two_jobs_running
   \<and> getNumThreads (ThreadPool 2 0) < 2 ^ 31
   \<and> getNumBusyThreads (ThreadPool 2 0) = 0
   \<and> getNumBusyThreads two_jobs_running = 2
   \<and> getNumBusyThreads two_jobs_running \<le> int (getNumThreads two_jobs_running)"
proof -
  have "getNumBusyThreads two_jobs_running = 2"
    by (simp add: getNumBusyThreads_def two_jobs_running_def)
  with busy_count_in_range [OF run_two_jobs_taken small_pool_2] run_two_jobs_taken small_pool_2
  show ?thesis by simp
qed

theorem drain_runs_every_job_witness:
  "run (ThreadPool 2 0) two_jobs = Next two_jobs_done
   \<and> getNumThreads (ThreadPool 2 0) < 2 ^ 31
   \<and> waitForCompletion two_jobs_done = Next two_jobs_done
   \<and> lCounter two_jobs_done = length (pushes two_jobs)
   \<and> mset (finished two_jobs_done) = mset (pushes two_jobs)
   \<and> length (pushes two_jobs) = 2"
proof -
  have w: "waitForCompletion two_jobs_done = Next two_jobs_done"
    by (simp add: two_jobs_done_def eval_defs)
  have "length (pushes two_jobs) = 2"
    by (simp add: two_jobs_def two_jobs_taken_def)
  with drain_runs_every_job [OF run_two_jobs small_pool_2 w] run_two_jobs small_pool_2 w
  show ?thesis by simp
qed


theorem ThreadPool_numThreads_witness:
  "0 <s (2 :: 32 word)
   \<and> int (getNumThreads (ThreadPool 2 0)) = sint (2 :: 32 word)
   \<and> getNumThreads (ThreadPool 0 8) = 8
   \<and> getNumThreads (ThreadPool 0 0) = 2
   \<and> run (ThreadPool 2 0) two_jobs = Next two_jobs_done
   \<and> getNumThreads two_jobs_done = getNumThreads (ThreadPool 2 0)"
proof -
  have p: "0 <s (2 :: 32 word)" by (simp add: word_sless_alt)
  from ThreadPool_numThreads [of 2 0 two_jobs two_jobs_done] p run_two_jobs
  have "int (getNumThreads (ThreadPool 2 0)) = sint (2 :: 32 word)"
    "getNumThreads two_jobs_done = getNumThreads (ThreadPool 2 0)" by blast+
  moreover from ThreadPool_numThreads [of 0 8] have "getNumThreads (ThreadPool 0 8) = 8" by simp
  moreover from ThreadPool_numThreads [of 0 0] have "getNumThreads (ThreadPool 0 0) = 2" by simp
  ultimately show ?thesis using p run_two_jobs by blast
qed

theorem jobs_dequeued_in_submission_order_witness:
  "run (ThreadPool 2 0) two_jobs_taken = Next two_jobs_running
   \<and> pushes two_jobs_taken = [Plain 0, Plain 1]
   \<and> dequeued two_jobs_running @ mJobsQueue two_jobs_running = [Plain 0, Plain 1]
   \<and> addJob (ThreadPool 1 0) (Plain 0) None = Next job_queued
   \<and> mJobsQueue job_queued = mJobsQueue (ThreadPool 1 0) @ [Plain 0]
   \<and> 0 < length (mThreads (one_job_locked\<lparr>mThreads := [TestTerminate]\<rparr>))
   \<and> mThreads (one_job_locked\<lparr>mThreads := [TestTerminate]\<rparr>) ! 0 = TestTerminate
   \<and> \<not> mTerminate (one_job_locked\<lparr>mThreads := [TestTerminate]\<rparr>)
   \<and> threadExecLoop (one_job_locked\<lparr>mThreads := [TestTerminate]\<rparr>) 0
        (mThreads (one_job_locked\<lparr>mThreads := [TestTerminate]\<rparr>) ! 0) = Next one_job_locked
   \<and> mThreads one_job_locked ! 0 = PopFront
   \<and> mJobsQueue one_job_locked = mJobsQueue (one_job_locked\<lparr>mThreads := [TestTerminate]\<rparr>)
   \<and> dequeued one_job_locked = dequeued (one_job_locked\<lparr>mThreads := [TestTerminate]\<rparr>)
   \<and> 0 < length (mThreads one_job_locked)
   \<and> threadExecLoop one_job_locked 0 (mThreads one_job_locked ! 0) = Next one_job_running
   \<and> mJobsQueue one_job_locked = Plain 0 # mJobsQueue one_job_running
   \<and> mThreads one_job_running ! 0 = Call (Some (Plain 0))
   \<and> dequeued one_job_running = dequeued one_job_locked @ [Plain 0]"
proof -
  let ?tested = "one_job_locked\<lparr>mThreads := [TestTerminate]\<rparr>"
  have a: "addJob (ThreadPool 1 0) (Plain 0) None = Next job_queued"
    by (simp add: ThreadPool_1_eq job_queued_def eval_defs)
  have t: "0 < length (mThreads ?tested)" "mThreads ?tested ! 0 = TestTerminate"
    "\<not> mTerminate ?tested"
    "threadExecLoop ?tested 0 (mThreads ?tested ! 0) = Next one_job_locked"
    by (simp_all add: one_job_locked_def eval_defs)
  have w: "0 < length (mThreads one_job_locked)" "mThreads one_job_locked ! 0 = PopFront"
    "threadExecLoop one_job_locked 0 (mThreads one_job_locked ! 0) = Next one_job_running"
    by (simp_all add: one_job_locked_def one_job_running_def eval_defs)
  have p: "pushes two_jobs_taken = [Plain 0, Plain 1]" by (simp add: two_jobs_taken_def)
  note inst = jobs_dequeued_in_submission_order
    [where n = 2 and hw = 0 and evs = two_jobs_taken and s = two_jobs_running
       and p = "ThreadPool 1 0" and j = "Plain 0" and w = None and q = job_queued
       and i = 0 and u = ?tested and v = one_job_locked and r = one_job_running]
  from inst run_two_jobs_taken p
  have 1: "dequeued two_jobs_running @ mJobsQueue two_jobs_running = [Plain 0, Plain 1]"
    by simp
  from inst a have 2: "mJobsQueue job_queued = mJobsQueue (ThreadPool 1 0) @ [Plain 0]"
    by blast
  from inst t have 3: "mJobsQueue one_job_locked = mJobsQueue ?tested"
    "dequeued one_job_locked = dequeued ?tested" by blast+
  from inst w obtain j where j: "mJobsQueue one_job_locked = j # mJobsQueue one_job_running"
    "mThreads one_job_running ! 0 = Call (Some j)"
    "dequeued one_job_running = dequeued one_job_locked @ [j]" by blast
  from j(2) have "j = Plain 0" by (simp add: one_job_running_def)
  with j 1 2 3 a t w p run_two_jobs_taken show ?thesis by blast
qed


lemma run_two_executors: "run (ThreadPool 1 0) two_executors = Next first_executor_done"
  by (simp add: two_executors_def first_executor_done_def ThreadPool_1_eq eval_defs fun_eq_iff)

theorem executor_waits_for_own_jobs_witness:
  "run (ThreadPool 1 0) two_executors = Next first_executor_done
   \<and> execOutstanding 0 first_executor_done = 0
   \<and> execOutstanding 0 first_executor_done < 2 ^ 32
   \<and> execWaitForCompletion first_executor_done 0 = Next first_executor_done
   \<and> execOutstanding 1 first_executor_done = 1
   \<and> execOutstanding 1 first_executor_done < 2 ^ 32
   \<and> execWaitForCompletion first_executor_done 1 = Blocked
   \<and> mNumJobs first_executor_done 0 = 0
   \<and> mNumJobs first_executor_done 1 = 1"
proof -
  have o: "execOutstanding 0 first_executor_done = 0" "execOutstanding 1 first_executor_done = 1"
    by (simp_all add: execOutstanding_def first_executor_done_def)
  note a = executor_waits_for_own_jobs
    [where n = 1 and hw = 0 and evs = two_executors and s = first_executor_done and A = 0
       and p = first_executor_done and q = first_executor_done]
  note b = executor_waits_for_own_jobs
    [where n = 1 and hw = 0 and evs = two_executors and s = first_executor_done and A = 1
       and p = first_executor_done and q = first_executor_done]
  from a run_two_executors o(1)
  have 0: "execWaitForCompletion first_executor_done 0 = Next first_executor_done"
    "mNumJobs first_executor_done 0 = 0" by simp_all
  from b run_two_executors o(2)
  have 1: "execWaitForCompletion first_executor_done 1 \<noteq> Next first_executor_done"
    "mNumJobs first_executor_done 1 = 1" by simp_all
  from b 1 have "execWaitForCompletion first_executor_done 1 = Blocked" by (simp split: if_splits)
  with 0 1 o run_two_executors show ?thesis by simp
qed

theorem counter_balanced_is_zero_witness:
  "counterRun JobCounter six_calls = Next 0
   \<and> count_list six_calls Increment = 3 \<and> count_list six_calls Decrement = 3
   \<and> counterWaitForCompletion 0 = Next 0
   \<and> paired 0 six_calls \<and> peak 0 six_calls < 2 ^ 31
   \<and> increment 0 = Next 1 \<and> 0 <s (1 :: 32 word) \<and> decrement 1 = Next 0
   \<and> increment 0 = Next 1"
proof -
  have r: "counterRun JobCounter six_calls = Next 0"
    by (simp add: six_calls_def JobCounter_def increment_def decrement_def word_sless_alt)
  have c: "count_list six_calls Increment = 3" "count_list six_calls Decrement = 3"
    by (simp_all add: six_calls_def)
  have p: "paired 0 six_calls" "peak 0 six_calls < 2 ^ 31"
    by (simp_all add: six_calls_def)
  have i: "increment 0 = Next 1" "0 <s (1 :: 32 word)"
    by (simp_all add: increment_def word_sless_alt)
  note a = counter_balanced_is_zero
    [where ops = six_calls and c = 0 and C = 3 and a = 0 and b = 1]
  from a r c have "counterWaitForCompletion 0 = Next (0 :: atomic_int)" by blast
  moreover from a i have "decrement 1 = Next (0 :: atomic_int)" by blast
  ultimately show ?thesis using r c p i by simp
qed

theorem counter_assertion_holds_when_paired_witness:
  "paired 0 six_calls \<and> peak 0 six_calls < 2 ^ 31
   \<and> counterRun JobCounter (take 2 six_calls) = Next 2
   \<and> 0 \<le> sint (2 :: 32 word)
   \<and> counterRun JobCounter six_calls = Next 0
   \<and> \<not> 0 <s (0 :: 32 word)
   \<and> counterRun 0 [Decrement] = AssertionFailed"
proof -
  have p: "paired 0 six_calls" "peak 0 six_calls < 2 ^ 31"
    by (simp_all add: six_calls_def)
  have r: "counterRun JobCounter (take 2 six_calls) = Next 2"
    "counterRun JobCounter six_calls = Next 0"
    by (simp_all add: six_calls_def JobCounter_def increment_def decrement_def word_sless_alt)
  have z: "\<not> 0 <s (0 :: 32 word)" by simp
  note a = counter_assertion_holds_when_paired [where ops = six_calls and a = 0 and rest = "[]"]
  from a p obtain c where "counterRun JobCounter (take 2 six_calls) = Next c" "0 \<le> sint c"
    by blast
  with r(1) have "0 \<le> sint (2 :: 32 word)" by simp
  moreover from a z have "counterRun 0 [Decrement] = AssertionFailed" by blast
  ultimately show ?thesis using p r z by simp
qed


text \<open>
  A pool destroyed with a job in its queue, in an execution where the worker sees the
  flag at the head of its loop: the destructor returns, the job is still queued and has
  not been run.
\<close>

lemma destroyed_without_drain:
  "run (ThreadPool 1 0) [AddJob 0 None] = Next job_queued
   \<and> step job_queued Destructor = Next terminating
   \<and> run terminating [Destructor, Worker 0, Destructor] = Next abandoned
   \<and> dtor abandoned = Destroyed \<and> mJobsQueue abandoned = [Plain 0]
   \<and> dequeued abandoned = [] \<and> finished abandoned = []"
  by (simp add: job_queued_def terminating_def abandoned_def ThreadPool_1_eq eval_defs)

lemma run_wait_at_shutdown: "run (ThreadPool 1 0) wait_at_shutdown = Next shutdown_waiter"
  by (simp add: wait_at_shutdown_def shutdown_waiter_def ThreadPool_1_eq eval_defs)

lemma run_shutdown_noop: "run shutdown_waiter [Worker 0, Worker 0, Worker 0] = Next shutdown_noop"
  by (simp add: shutdown_waiter_def shutdown_noop_def eval_defs)

theorem grab_after_terminate_witness:
  "run (ThreadPool 1 0) wait_at_shutdown = Next shutdown_waiter
   \<and> getNumThreads (ThreadPool 1 0) < 2 ^ 31
   \<and> 0 < length (mThreads shutdown_waiter)
   \<and> mThreads shutdown_waiter ! 0 = LockForGrab
   \<and> mTerminate shutdown_waiter
   \<and> mJobsQueueMutex shutdown_waiter = None
   \<and> dtor shutdown_waiter \<noteq> Destroyed
   \<and> run shutdown_waiter [Worker 0, Worker 0, Worker 0] = Next shutdown_noop
   \<and> mThreads shutdown_noop = [Call None]
   \<and> inCall (mThreads shutdown_noop) = []
   \<and> mJobsQueue shutdown_noop = [Plain 0]
   \<and> getNumBusyThreads shutdown_noop = 1
   \<and> 0 < getNumBusyThreads shutdown_noop
   \<and> run shutdown_noop [Worker 0, Worker 0] = Next (shutdown_waiter\<lparr>mThreads := [LoopTest]\<rparr>)"
proof -
  have h: "0 < length (mThreads shutdown_waiter)" "mThreads shutdown_waiter ! 0 = LockForGrab"
    "mTerminate shutdown_waiter" "mJobsQueueMutex shutdown_waiter = None"
    "dtor shutdown_waiter \<noteq> Destroyed"
    by (simp_all add: shutdown_waiter_def)
  from grab_after_terminate [OF run_wait_at_shutdown small_pool_1 h]
  obtain t u where t: "run shutdown_waiter [Worker 0, Worker 0, Worker 0] = Next t"
    "0 < getNumBusyThreads t" by blast
  with run_shutdown_noop have "t = shutdown_noop" by simp
  with t have pos: "0 < getNumBusyThreads shutdown_noop" by simp
  have e: "mThreads shutdown_noop = [Call None]" "inCall (mThreads shutdown_noop) = []"
    "mJobsQueue shutdown_noop = [Plain 0]" "getNumBusyThreads shutdown_noop = 1"
    by (simp_all add: shutdown_noop_def shutdown_waiter_def inCall_def getNumBusyThreads_def)
  have r: "run shutdown_noop [Worker 0, Worker 0] = Next (shutdown_waiter\<lparr>mThreads := [LoopTest]\<rparr>)"
    by (simp add: shutdown_noop_def shutdown_waiter_def eval_defs)
  from run_wait_at_shutdown small_pool_1 h run_shutdown_noop pos e r show ?thesis by blast
qed

end
